theory Spec2Isabelle
  imports Main
begin

section \<open>Characters and strings\<close>

text \<open>
  The program is \<^verbatim>\<open>rename.py\<close>. Its names are Python \<^verbatim>\<open>str\<close> values. A character is
  modelled by \<^typ>\<open>char\<close>, read as the code point of the same number (0 to 255); a name
  with a code point above 255 is outside this model. The classes below are the ones the
  \<^verbatim>\<open>re\<close> module and \<^verbatim>\<open>str.strip\<close>, \<^verbatim>\<open>str.lower\<close> use for \<^verbatim>\<open>str\<close> on that range.
\<close>

definition code :: "char \<Rightarrow> nat" where
  "code c = of_char c"

text \<open>\<^verbatim>\<open>\d\<close>: a decimal digit.\<close>

definition is_digit :: "char \<Rightarrow> bool" where
  "is_digit c = (48 \<le> code c \<and> code c \<le> 57)"

text \<open>\<^verbatim>\<open>\s\<close> and the characters \<^verbatim>\<open>str.strip()\<close> removes: tab to carriage return, the
  separators 28 to 31, the space, NEL (133) and the no-break space (160).\<close>

definition is_space :: "char \<Rightarrow> bool" where
  "is_space c = (let n = code c in
     (9 \<le> n \<and> n \<le> 13) \<or> (28 \<le> n \<and> n \<le> 32) \<or> n = 133 \<or> n = 160)"

text \<open>\<^verbatim>\<open>\w\<close>: the underscore and every character \<^verbatim>\<open>str.isalnum\<close> accepts: digits,
  letters, and on 128 to 255 the letters, superscript digits and vulgar fractions.\<close>

definition is_word :: "char \<Rightarrow> bool" where
  "is_word c = (let n = code c in
     (48 \<le> n \<and> n \<le> 57) \<or> (65 \<le> n \<and> n \<le> 90) \<or> n = 95 \<or> (97 \<le> n \<and> n \<le> 122) \<or>
     n = 170 \<or> n = 178 \<or> n = 179 \<or> n = 181 \<or> n = 185 \<or> n = 186 \<or>
     (188 \<le> n \<and> n \<le> 190) \<or> (192 \<le> n \<and> n \<le> 214) \<or> (216 \<le> n \<and> n \<le> 246) \<or>
     (248 \<le> n \<and> n \<le> 255))"

text \<open>\<^verbatim>\<open>str.lower()\<close> on one character: A to Z, and the capital letters 192 to 222
  (215, the multiplication sign, is not a letter).\<close>

definition lower_char :: "char \<Rightarrow> char" where
  "lower_char c = (let n = code c in
     if (65 \<le> n \<and> n \<le> 90) \<or> (192 \<le> n \<and> n \<le> 222 \<and> n \<noteq> 215) then char_of (n + 32) else c)"

definition lower :: "string \<Rightarrow> string" where
  "lower s = map lower_char s"

text \<open>\<^verbatim>\<open>s.startswith(p)\<close>.\<close>

definition startswith :: "string \<Rightarrow> string \<Rightarrow> bool" where
  "startswith s p = (take (length p) s = p)"

text \<open>\<^verbatim>\<open>s.strip()\<close>: whitespace removed at both ends.\<close>

definition strip :: "string \<Rightarrow> string" where
  "strip s = rev (dropWhile is_space (rev (dropWhile is_space s)))"

text \<open>\<^verbatim>\<open>s.replace('&', 'and')\<close>.\<close>

definition replace_amp :: "string \<Rightarrow> string" where
  "replace_amp s = concat (map (\<lambda>c. if c = CHR ''&'' then ''and'' else [c]) s)"

text \<open>\<^verbatim>\<open>s.rfind(c)\<close> for a one-character \<^verbatim>\<open>c\<close>: the last index of it, or -1.\<close>

definition rfind :: "string \<Rightarrow> char \<Rightarrow> int" where
  "rfind s c = (if c \<in> set s
     then int (length s) - 1 - int (length (takeWhile (\<lambda>x. x \<noteq> c) (rev s))) else - 1)"

section \<open>Paths\<close>

text \<open>
  \<^verbatim>\<open>os.path.splitext\<close> (POSIX): the extension starts at the last dot of the last path
  component, unless only dots stand before it in that component.
  \<^verbatim>\<open>
  sepIndex = p.rfind('/')
  dotIndex = p.rfind('.')
  if dotIndex > sepIndex:
      filenameIndex = sepIndex + 1
      while filenameIndex < dotIndex:
          if p[filenameIndex] != '.':
              return p[:dotIndex], p[dotIndex:]
          filenameIndex += 1
  return p, ''
  \<close>
\<close>

definition splitext :: "string \<Rightarrow> string \<times> string" where
  "splitext p = (let sepIndex = rfind p CHR ''/''; dotIndex = rfind p CHR ''.'' in
     if dotIndex > sepIndex \<and>
        list_ex (\<lambda>c. c \<noteq> CHR ''.'') (drop (nat (sepIndex + 1)) (take (nat dotIndex) p))
     then (take (nat dotIndex) p, drop (nat dotIndex) p) else (p, []))"

text \<open>\<^verbatim>\<open>os.path.basename\<close>: what follows the last slash.\<close>

definition basename :: "string \<Rightarrow> string" where
  "basename p = drop (nat (rfind p CHR ''/'' + 1)) p"

text \<open>\<^verbatim>\<open>os.path.join(a, b)\<close> for two components.\<close>

definition path_join :: "string \<Rightarrow> string \<Rightarrow> string" where
  "path_join a b = (if startswith b ''/'' then b
     else if a = [] \<or> last a = CHR ''/'' then a @ b else a @ ''/'' @ b)"

section \<open>Regular expressions of \<^verbatim>\<open>format_name\<close>\<close>

text \<open>
  \<^verbatim>\<open>re.match(r'^[\w\s]+ \(\d{4}\)$', s)\<close>: one or more word or space characters, a space,
  a year of four digits in parentheses, and the end of the string. \<^verbatim>\<open>$\<close> also matches
  before a newline that ends the string.
\<close>

definition year_suffix :: "string \<Rightarrow> bool" where
  "year_suffix r = (case r of
     [a, b, d1, d2, d3, d4, e] \<Rightarrow>
       a = CHR '' '' \<and> b = CHR ''('' \<and> list_all is_digit [d1, d2, d3, d4] \<and> e = CHR '')''
   | _ \<Rightarrow> False)"

definition title_year :: "string \<Rightarrow> bool" where
  "title_year s = (7 < length s \<and>
     list_all (\<lambda>c. is_word c \<or> is_space c) (take (length s - 7) s) \<and>
     year_suffix (drop (length s - 7) s))"

definition correct_format :: "string \<Rightarrow> bool" where
  "correct_format s = (title_year s \<or> (s \<noteq> [] \<and> last s = CHR 0x0A \<and> title_year (butlast s)))"

text \<open>
  \<^verbatim>\<open>re.sub(r'[C]+', ' ', s)\<close> for a character class \<^verbatim>\<open>C\<close>: every maximal run of
  characters of the class becomes one space. The flag says that the previous character
  was of the class.
\<close>

fun sub_runs :: "(char \<Rightarrow> bool) \<Rightarrow> bool \<Rightarrow> string \<Rightarrow> string" where
  "sub_runs P in_run [] = []"
| "sub_runs P in_run (c # cs) =
     (if P c then (if in_run then sub_runs P True cs else CHR '' '' # sub_runs P True cs)
      else c # sub_runs P False cs)"

text \<open>The class \<^verbatim>\<open>[\._-]\<close>.\<close>

definition is_separator :: "char \<Rightarrow> bool" where
  "is_separator c = (c = CHR ''.'' \<or> c = CHR ''_'' \<or> c = CHR ''-'')"

text \<open>
  The patterns of \<^verbatim>\<open>patterns_to_remove\<close> are sequences of two kinds of atoms: a literal
  character (matched without regard to case, the flag \<^verbatim>\<open>re.IGNORECASE\<close>) and \<^verbatim>\<open>\d+\<close>.
  \<open>match_lens\<close> lists the lengths of the matches of a pattern at the start of a string in
  the order the backtracking matcher tries them (\<^verbatim>\<open>\d+\<close> is greedy: longest first); the
  match \<^verbatim>\<open>re\<close> reports is the first.
\<close>

datatype atom = Ch char | Digits1

fun match_lens :: "atom list \<Rightarrow> string \<Rightarrow> nat list" where
  "match_lens [] s = [0]"
| "match_lens (Ch c # as) [] = []"
| "match_lens (Ch c # as) (x # xs) =
     (if lower_char x = lower_char c then map Suc (match_lens as xs) else [])"
| "match_lens (Digits1 # as) s =
     concat (map (\<lambda>k. map (\<lambda>m. k + m) (match_lens as (drop k s)))
                 (rev [1 ..< Suc (length (takeWhile is_digit s))]))"

definition match_len :: "atom list \<Rightarrow> string \<Rightarrow> nat option" where
  "match_len p s = (case match_lens p s of [] \<Rightarrow> None | n # _ \<Rightarrow> Some n)"

text \<open>
  \<^verbatim>\<open>re.sub(pattern, '', s)\<close>: the matches are found from left to right, each search
  starting where the last match ended, and deleted. \<open>m\<close> gives the length of the match
  at the start of a string; the counter is the number of characters of the current
  match still to delete. An empty match deletes nothing.
\<close>

fun sub_delete :: "(string \<Rightarrow> nat option) \<Rightarrow> nat \<Rightarrow> string \<Rightarrow> string" where
  "sub_delete m k [] = []"
| "sub_delete m (Suc k) (x # xs) = sub_delete m k xs"
| "sub_delete m 0 (x # xs) =
     (case m (x # xs) of
        Some (Suc n) \<Rightarrow> sub_delete m n xs
      | _ \<Rightarrow> x # sub_delete m 0 xs)"

definition lit :: "string \<Rightarrow> atom list" where
  "lit s = map Ch s"

definition patterns_to_remove :: "atom list list" where
  "patterns_to_remove =
    [lit ''[1080p]'', lit ''[480p]'', lit ''[WEBRip]'', lit ''[BluRay]'',
     lit ''[5.1]'', lit ''[YTS.MX]'', lit ''[2160p]'', lit ''[4K]'', lit ''[WEB]'',
     lit ''x264'', lit ''x265'', lit ''H264'', lit ''H265'', lit ''.HDR.'',
     [Ch CHR ''.'', Ch CHR ''S'', Digits1, Ch CHR ''E'', Digits1, Ch CHR ''.''],
     lit ''.AC3.'', lit ''.EAC3.'', lit ''.AAC.'', lit ''.MP3.'', lit ''.AVC.'', lit ''HEVC'',
     lit ''-'']"

text \<open>The loop of lines 33 and 34.\<close>

definition remove_patterns :: "string \<Rightarrow> string" where
  "remove_patterns name = foldl (\<lambda>n p. sub_delete (match_len p) 0 n) name patterns_to_remove"

text \<open>
  \<^verbatim>\<open>re.search(r'(\d{4})', s)\<close>: the first place where four digits follow one another,
  as the text before it, the four digits and the text after them.
\<close>

definition four_digits :: "string \<Rightarrow> bool" where
  "four_digits s = (4 \<le> length s \<and> list_all is_digit (take 4 s))"

fun search_year :: "string \<Rightarrow> (string \<times> string \<times> string) option" where
  "search_year [] = None"
| "search_year (c # cs) =
     (if four_digits (c # cs) then Some ([], take 4 (c # cs), drop 4 (c # cs))
      else (case search_year cs of
              None \<Rightarrow> None
            | Some (pre, y, post) \<Rightarrow> Some (c # pre, y, post)))"

text \<open>
  \<^verbatim>\<open>re.sub(r'(.*)\d{4}.*', r'\1', s)\<close>. The dot matches every character but the newline,
  so a match lies in one line; it starts at the start of the line, and since \<^verbatim>\<open>(.*)\<close> is
  greedy its group is the longest start of the line that four digits follow. The match
  runs to the end of the line and is replaced by the group. \<open>greedy_group\<close> is that group
  for one line, \<open>cut_line\<close> the line after the substitution, and \<open>cut_lines\<close> goes through
  the lines (the first argument is the line read so far).
\<close>

fun greedy_group :: "string \<Rightarrow> string option" where
  "greedy_group [] = None"
| "greedy_group (c # cs) =
     (case greedy_group cs of
        Some g \<Rightarrow> Some (c # g)
      | None \<Rightarrow> if four_digits (c # cs) then Some [] else None)"

definition cut_line :: "string \<Rightarrow> string" where
  "cut_line l = (case greedy_group l of Some g \<Rightarrow> g | None \<Rightarrow> l)"

fun cut_lines :: "string \<Rightarrow> string \<Rightarrow> string" where
  "cut_lines l [] = cut_line l"
| "cut_lines l (c # cs) =
     (if c = CHR 0x0A then cut_line l @ c # cut_lines [] cs else cut_lines (l @ [c]) cs)"

definition sub_year_cut :: "string \<Rightarrow> string" where
  "sub_year_cut s = cut_lines [] s"

text \<open>\<^verbatim>\<open>re.sub(r'\(\s*\)', '', s)\<close>: a pair of parentheses with only whitespace inside.\<close>

definition empty_parens :: "string \<Rightarrow> nat option" where
  "empty_parens s = (case s of
     [] \<Rightarrow> None
   | c # r \<Rightarrow> if c = CHR ''('' \<and> startswith (dropWhile is_space r) '')''
             then Some (length (takeWhile is_space r) + 2) else None)"

text \<open>\<^verbatim>\<open>re.sub(r'[-\s]+$', '', s)\<close>: the hyphens and whitespace that end the string.\<close>

definition sub_trailing :: "string \<Rightarrow> string" where
  "sub_trailing s = rev (dropWhile (\<lambda>c. c = CHR ''-'' \<or> is_space c) (rev s))"

section \<open>\<^verbatim>\<open>format_name\<close>\<close>

text \<open>Lines 45 and 46: the end of the name and its whitespace are tidied.\<close>

definition tidy :: "string \<Rightarrow> string" where
  "tidy name = strip (sub_runs is_space False (strip (sub_trailing name)))"

text \<open>
  Lines 36 to 43, on the name the patterns were removed from. A year is used when the
  name has four digits in a row, or else when the caller gave one that is not empty
  (\<^verbatim>\<open>if year:\<close> is false for \<^verbatim>\<open>None\<close> and for the empty string).
\<close>

definition with_year :: "string \<Rightarrow> string option \<Rightarrow> string" where
  "with_year name year_from_file =
     (let year = (case search_year name of
                    Some (pre, y, post) \<Rightarrow> Some y
                  | None \<Rightarrow> year_from_file)
      in case year of
           Some y \<Rightarrow>
             if y \<noteq> [] then strip (strip (sub_year_cut name)) @ '' ('' @ y @ '')''
             else sub_delete empty_parens 0 name
         | None \<Rightarrow> sub_delete empty_parens 0 name)"

definition format_name :: "string \<Rightarrow> bool \<Rightarrow> string option \<Rightarrow> string" where
  "format_name entity0 is_file year_from_file =
     (let (entity1, extension) = (if is_file then splitext entity0 else (entity0, []));
          entity = replace_amp entity1
      in if correct_format (fst (splitext entity)) then entity @ extension
         else
           let name = sub_runs is_separator False entity;
               name = remove_patterns name;
               name = with_year name year_from_file;
               name = tidy name
           in if is_file then name @ extension else name)"


text \<open>The name after lines 31 to 34: separators replaced, patterns removed.\<close>

definition cleaned :: "string \<Rightarrow> string" where
  "cleaned entity = remove_patterns (sub_runs is_separator False entity)"

text \<open>The result of \<^verbatim>\<open>format_name\<close> without the extension it reattaches at the end: lines 17
  to 46 on the stem.\<close>

definition title_of :: "string \<Rightarrow> string option \<Rightarrow> string" where
  "title_of stem year_from_file =
     (let entity = replace_amp stem
      in if correct_format (fst (splitext entity)) then entity
         else tidy (with_year (cleaned entity) year_from_file))"

section \<open>The operating system\<close>

text \<open>
  \<^verbatim>\<open>rename_entity\<close> and \<^verbatim>\<open>walk_directory\<close> call \<^verbatim>\<open>os.listdir\<close>, \<^verbatim>\<open>os.rename\<close> and
  \<^verbatim>\<open>os.walk\<close>, and write to the log. The file system is a parameter: a type \<open>'fs\<close> of
  file system states and the operations on it. An operation that raises \<^verbatim>\<open>OSError\<close>
  returns the error's text on the left (\<^verbatim>\<open>os.scandir\<close>, whose error \<^verbatim>\<open>os.walk\<close> swallows,
  returns \<open>None\<close>). \<open>os_scandir\<close> gives the names of a directory's entries as \<^verbatim>\<open>os.walk\<close>
  sorts them: the directories, then the other entries.
\<close>

record 'fs os =
  os_listdir :: "'fs \<Rightarrow> string \<Rightarrow> string + string list"
  os_rename :: "'fs \<Rightarrow> string \<Rightarrow> string \<Rightarrow> string + 'fs"
  os_scandir :: "'fs \<Rightarrow> string \<Rightarrow> (string list \<times> string list) option"
  os_islink :: "'fs \<Rightarrow> string \<Rightarrow> bool"

text \<open>
  What a run does, in order: the records written to the log (level, format string and
  arguments, as \<^verbatim>\<open>logging.info(fmt, *args)\<close> receives them) and the calls of
  \<^verbatim>\<open>os.rename\<close>. Two more events only mark the progress of \<^verbatim>\<open>walk_directory\<close>:
  \<open>Yield root\<close> when \<^verbatim>\<open>os.walk\<close> yields a directory, and \<open>Visit root name is_file\<close> when the
  loop body hands an entry to \<^verbatim>\<open>rename_entity\<close>.
\<close>

datatype level = INFO | ERROR

datatype event =
    Log level string "string list"
  | RenameCall string string
  | Yield string
  | Visit string string bool

record 'fs world =
  filesystem :: 'fs
  trace :: "event list"

datatype error = OSError string | OutOfFuel

text \<open>A call returns the world it leaves (right), or raises an error in a world (left).\<close>

type_synonym 'fs result = "(error \<times> 'fs world) + 'fs world"

definition world_of :: "'fs result \<Rightarrow> 'fs world" where
  "world_of r = (case r of Inl (e, w) \<Rightarrow> w | Inr w \<Rightarrow> w)"

definition emit :: "event \<Rightarrow> 'fs world \<Rightarrow> 'fs world" where
  "emit e w = w\<lparr>trace := trace w @ [e]\<rparr>"

definition logging_info :: "string \<Rightarrow> string list \<Rightarrow> 'fs world \<Rightarrow> 'fs world" where
  "logging_info fmt args w = emit (Log INFO fmt args) w"

definition logging_error :: "string \<Rightarrow> string list \<Rightarrow> 'fs world \<Rightarrow> 'fs world" where
  "logging_error fmt args w = emit (Log ERROR fmt args) w"

text \<open>The apostrophe of the format strings.\<close>

definition q :: string where
  "q = [CHR 0x27]"

definition dry_run_fmt :: string where
  "dry_run_fmt = ''Dry run: Would rename '' @ q @ ''%s'' @ q @ '' to '' @ q @ ''%s'' @ q"

definition renamed_fmt :: string where
  "renamed_fmt = ''Renamed '' @ q @ ''%s'' @ q @ '' to '' @ q @ ''%s'' @ q"

definition error_fmt :: string where
  "error_fmt = ''Error renaming '' @ q @ ''%s'' @ q @ '' to '' @ q @ ''%s'' @ q @ '': %s''"

definition no_rename_fmt :: string where
  "no_rename_fmt = ''No renaming necessary for '' @ q @ ''%s'' @ q"

definition shadow_fmt :: string where
  "shadow_fmt = ''Skipping file '' @ q @ ''%s'' @ q @ '' as it starts with '' @ q @ ''._'' @ q"

section \<open>\<^verbatim>\<open>rename_entity\<close>\<close>

definition ignore_extensions :: "string list" where
  "ignore_extensions = [''.vob'', ''.info'', ''.nfo'', ''.ifo'', ''.bup'', ''.log'', ''.py'']"

text \<open>The loop of lines 76 to 82 over the listing of a directory: the first four digits
  in a row of the first entry that is not hidden and has them.\<close>

fun find_year :: "string list \<Rightarrow> string option" where
  "find_year [] = None"
| "find_year (file # files) =
     (if startswith file ''.'' then find_year files
      else (case search_year file of
              Some (pre, y, post) \<Rightarrow> Some y
            | None \<Rightarrow> find_year files))"

definition rename_entity ::
  "'fs os \<Rightarrow> string \<Rightarrow> string \<Rightarrow> bool \<Rightarrow> string list \<Rightarrow> bool \<Rightarrow> 'fs world \<Rightarrow> 'fs result" where
  "rename_entity os root_path entity dry_run ignored_dirs is_file w =
     (if startswith entity ''.'' then
        Inr (logging_info ''Skipping hidden file or directory: %s'' [entity] w)
      else if basename root_path \<in> set ignored_dirs then
        Inr (logging_info ''Skipping ignored directory: %s'' [root_path] w)
      else
        let extension = lower (snd (splitext entity)) in
        if extension \<in> set ignore_extensions then
          Inr (logging_info ''Skipping renaming of file with ignored extension: %s'' [entity] w)
        else if startswith entity ''._'' then
          Inr (logging_info shadow_fmt [entity] w)
        else
          let original_path = path_join root_path entity in
          case (if \<not> is_file
                then (case os_listdir os (filesystem w) original_path of
                        Inl msg \<Rightarrow> Inl msg
                      | Inr listing \<Rightarrow> Inr (find_year listing))
                else Inr None) of
            Inl msg \<Rightarrow> Inl (OSError msg, w)
          | Inr year_from_file \<Rightarrow>
              let new_name = format_name entity is_file year_from_file;
                  new_path = path_join root_path new_name
              in if original_path \<noteq> new_path then
                   if dry_run then
                     Inr (logging_info dry_run_fmt [original_path, new_path] w)
                   else
                     (case os_rename os (filesystem w) original_path new_path of
                        Inr fs' \<Rightarrow>
                          Inr (logging_info renamed_fmt [original_path, new_path]
                                 (emit (RenameCall original_path new_path) w\<lparr>filesystem := fs'\<rparr>))
                      | Inl msg \<Rightarrow>
                          Inr (logging_error error_fmt [original_path, new_path, msg]
                                 (emit (RenameCall original_path new_path) w)))
                 else Inr (logging_info no_rename_fmt [original_path] w))"

section \<open>\<^verbatim>\<open>walk_directory\<close>\<close>

text \<open>A \<^verbatim>\<open>for\<close> loop whose body may raise: the first error ends it.\<close>

fun for_each :: "('a \<Rightarrow> 'w \<Rightarrow> ('e \<times> 'w) + 'w) \<Rightarrow> 'a list \<Rightarrow> 'w \<Rightarrow> ('e \<times> 'w) + 'w" where
  "for_each body [] w = Inr w"
| "for_each body (x # xs) w =
     (case body x w of
        Inl err \<Rightarrow> Inl err
      | Inr w' \<Rightarrow> for_each body xs w')"

text \<open>
  \<^verbatim>\<open>os.walk(directory, topdown=True)\<close> with the loop body of \<^verbatim>\<open>walk_directory\<close> run at
  each yield. \<^verbatim>\<open>os.walk\<close> lists \<open>root\<close> (a directory it cannot list is passed over in
  silence, \<^verbatim>\<open>onerror\<close> being \<^verbatim>\<open>None\<close>), yields, and then walks into each name left in
  \<open>dirs\<close> that is not a symbolic link, under the name the list holds. The first argument
  bounds the depth of the descent, which makes the recursion structural; beyond it the
  walk stops with \<open>OutOfFuel\<close>.
\<close>

fun walk_directory ::
  "nat \<Rightarrow> 'fs os \<Rightarrow> string \<Rightarrow> bool \<Rightarrow> string list \<Rightarrow> 'fs world \<Rightarrow> 'fs result" where
  "walk_directory 0 os root dry_run ignored_dirs w = Inl (OutOfFuel, w)"
| "walk_directory (Suc depth) os root dry_run ignored_dirs w =
     (case os_scandir os (filesystem w) root of
        None \<Rightarrow> Inr w
      | Some (dirs0, files0) \<Rightarrow>
         (let dirs = filter (\<lambda>d. \<not> startswith d ''.'' \<and> d \<notin> set ignored_dirs) dirs0;
              files = filter (\<lambda>f. \<not> startswith f ''.'') files0
          in (case for_each (\<lambda>name w. rename_entity os root name dry_run ignored_dirs True
                                         (emit (Visit root name True) w))
                            files (emit (Yield root) w) of
                Inl err \<Rightarrow> Inl err
              | Inr w1 \<Rightarrow>
                 (case for_each (\<lambda>name w. rename_entity os root name dry_run ignored_dirs False
                                              (emit (Visit root name False) w))
                                dirs w1 of
                    Inl err \<Rightarrow> Inl err
                  | Inr w2 \<Rightarrow>
                      for_each (\<lambda>dirname w.
                                  if os_islink os (filesystem w) (path_join root dirname) then Inr w
                                  else walk_directory depth os (path_join root dirname)
                                         dry_run ignored_dirs w)
                               dirs w2))))"

section \<open>Reading a trace\<close>

text \<open>The calls of \<^verbatim>\<open>os.rename\<close>, the renames a dry run announces, and the renames the
  log reports as done, each in order.\<close>

fun rename_calls :: "event list \<Rightarrow> (string \<times> string) list" where
  "rename_calls [] = []"
| "rename_calls (RenameCall a b # es) = (a, b) # rename_calls es"
| "rename_calls (e # es) = rename_calls es"

fun announced :: "event list \<Rightarrow> (string \<times> string) list" where
  "announced [] = []"
| "announced (Log INFO fmt [a, b] # es) =
     (if fmt = dry_run_fmt then (a, b) # announced es else announced es)"
| "announced (e # es) = announced es"

fun applied :: "event list \<Rightarrow> (string \<times> string) list" where
  "applied [] = []"
| "applied (Log INFO fmt [a, b] # es) =
     (if fmt = renamed_fmt then (a, b) # applied es else applied es)"
| "applied (e # es) = applied es"

text \<open>The events a call added to the trace of the world it started in.\<close>

definition new_events :: "'fs world \<Rightarrow> 'fs result \<Rightarrow> event list" where
  "new_events w r = drop (length (trace w)) (trace (world_of r))"






text \<open>The two events that mark the progress of the walk, and the state of \<open>files_first\<close>
  after a list of events.\<close>

fun is_marker :: "event \<Rightarrow> bool" where
  "is_marker (Yield root) = True"
| "is_marker (Visit root name is_file) = True"
| "is_marker e = False"



section \<open>A small file system\<close>

text \<open>
  A file system to run the program on: the list of its paths, each with the flag of a
  directory (the root \<^verbatim>\<open>/\<close> is not listed). A directory lists the paths one component
  below it; there are no symbolic links. A rename moves a path and everything below it
  as \<^verbatim>\<open>rename(2)\<close> does on POSIX: onto a file it replaces the file, onto an empty directory
  it replaces the directory, and it fails when the source is missing, when the target
  lies below the directory to move, when the directory of the target is missing, when
  one of the two is a directory and the other is not, and when the target is a directory
  that is not empty.
\<close>

type_synonym tree = "(string \<times> bool) list"

definition child :: "string \<Rightarrow> string \<Rightarrow> string option" where
  "child dir p = (let n = length dir + 1 in
     if startswith p (dir @ ''/'') \<and> n < length p \<and> CHR ''/'' \<notin> set (drop n p)
     then Some (drop n p) else None)"

definition children :: "tree \<Rightarrow> string \<Rightarrow> bool \<Rightarrow> string list" where
  "children t dir is_dir =
     concat (map (\<lambda>(p, d). if d = is_dir then (case child dir p of Some n \<Rightarrow> [n] | None \<Rightarrow> []) else []) t)"

text \<open>The paths after the move of \<open>a\<close> to \<open>b\<close>, and whether the directory a path lies in
  exists.\<close>

definition move :: "tree \<Rightarrow> string \<Rightarrow> string \<Rightarrow> tree" where
  "move t a b = map (\<lambda>(p, d). (if p = a then b
                                 else if startswith p (a @ ''/'') then b @ drop (length a) p
                                 else p, d)) t"

definition parent_exists :: "tree \<Rightarrow> string \<Rightarrow> bool" where
  "parent_exists t p = (let i = rfind p CHR ''/'' in i \<le> 0 \<or> (take (nat i) p, True) \<in> set t)"

definition rename_tree :: "tree \<Rightarrow> string \<Rightarrow> string \<Rightarrow> string + tree" where
  "rename_tree t a b =
     (case map_of t a of
        None \<Rightarrow> Inl ''No such file or directory''
      | Some a_dir \<Rightarrow>
          if a = b then Inr t
          else if a_dir \<and> startswith b (a @ ''/'') then Inl ''Invalid argument''
          else if \<not> parent_exists t b then Inl ''No such file or directory''
          else (case map_of t b of
                  None \<Rightarrow> Inr (move t a b)
                | Some b_dir \<Rightarrow>
                    if a_dir \<and> \<not> b_dir then Inl ''Not a directory''
                    else if \<not> a_dir \<and> b_dir then Inl ''Is a directory''
                    else if b_dir \<and> list_ex (\<lambda>(p, d). startswith p (b @ ''/'')) t
                      then Inl ''Directory not empty''
                    else Inr (move (filter (\<lambda>(p, d). p \<noteq> b) t) a b)))"

definition tree_os :: "tree os" where
  "tree_os = \<lparr>
     os_listdir = (\<lambda>t dir. if (dir, True) \<in> set t
        then Inr (children t dir True @ children t dir False)
        else Inl ''Not a directory''),
     os_rename = rename_tree,
     os_scandir = (\<lambda>t dir. if (dir, True) \<in> set t
        then Some (children t dir True, children t dir False) else None),
     os_islink = (\<lambda>t p. False) \<rparr>"

text \<open>The same file system mounted read-only: every rename is refused.\<close>

definition readonly_os :: "tree os" where
  "readonly_os = tree_os \<lparr> os_rename := (\<lambda>t a b. Inl ''Read-only file system'') \<rparr>"

text \<open>Two file systems for the examples, and the world a run starts in.\<close>

definition movie_tree :: tree where
  "movie_tree = [(''/m'', True), (''/m/Movie.2019.mkv'', False)]"

definition library :: tree where
  "library =
    [(''/m'', True), (''/m/Other (2020).mkv'', False),
     (''/m/Movie.2019'', True), (''/m/Movie.2019/Movie.2019.mkv'', False),
     (''/m/.cache'', True), (''/m/.cache/Old.2001.mkv'', False),
     (''/m/extras'', True), (''/m/extras/Clip.1999.mkv'', False)]"

definition start :: "'fs \<Rightarrow> 'fs world" where
  "start t = \<lparr>filesystem = t, trace = []\<rparr>"

section \<open>The claims as the specification words them\<close>

text \<open>The extension of a name as its final dot-delimited suffix: what starts at the last
  dot, and nothing when the name has no dot.\<close>

definition final_suffix :: "string \<Rightarrow> string" where
  "final_suffix s = (if CHR ''.'' \<in> set s then drop (nat (rfind s CHR ''.'')) s else [])"

text \<open>A pattern of the catalog occurs in a string when it matches at some position.\<close>

definition occurs :: "atom list \<Rightarrow> string \<Rightarrow> bool" where
  "occurs p s = list_ex (\<lambda>k. match_len p (drop k s) \<noteq> None) [0 ..< Suc (length s)]"

definition contains_tag :: "string \<Rightarrow> bool" where
  "contains_tag s = list_ex (\<lambda>p. occurs p s) patterns_to_remove"

text \<open>The patterns of the catalog that hold a dot, an underscore or a hyphen.\<close>

definition separator_pattern :: "atom list \<Rightarrow> bool" where
  "separator_pattern p = list_ex (\<lambda>a. case a of Ch c \<Rightarrow> is_separator c | Digits1 \<Rightarrow> False) p"

text \<open>The first run of exactly four digits (no digit before it, none after it): the text
  before it and the run. The flag says that the previous character was a digit.\<close>

fun first_run_of_four :: "bool \<Rightarrow> string \<Rightarrow> (string \<times> string) option" where
  "first_run_of_four prev [] = None"
| "first_run_of_four prev (c # cs) =
     (if \<not> prev \<and> four_digits (c # cs) \<and> \<not> list_ex is_digit (take 1 (drop 4 (c # cs)))
      then Some ([], take 4 (c # cs))
      else (case first_run_of_four (is_digit c) cs of
              None \<Rightarrow> None
            | Some (pre, y) \<Rightarrow> Some (c # pre, y)))"

text \<open>The name the claim about the year promises: the text before the run, trimmed, and
  the run in parentheses.\<close>

definition title_and_year :: "string \<Rightarrow> string \<Rightarrow> string" where
  "title_and_year pre y = strip pre @ '' ('' @ y @ '')''"


text \<open>A name ends in an extension of the ignore list, whatever the case of its letters.\<close>

definition ends_with_ci :: "string \<Rightarrow> string \<Rightarrow> bool" where
  "ends_with_ci s ext = (length ext \<le> length s \<and> lower (drop (length s - length ext) s) = ext)"

definition has_ignored_extension :: "string \<Rightarrow> bool" where
  "has_ignored_extension s = list_ex (ends_with_ci s) ignore_extensions"

section \<open>Evaluating the character classes\<close>

text \<open>The classes on a character given by its bits (the lowest first), for the
  simplifier to evaluate the functions above on the strings of the examples.\<close>

lemma is_digit_Char:
  "is_digit (Char b0 b1 b2 b3 b4 b5 b6 b7) =
     (\<not> b7 \<and> (\<not> b6 \<and> (b5 \<and> (b4 \<and> (\<not> b3 \<or> (\<not> b2 \<and> \<not> b1))))))"
  by (cases b0; cases b1; cases b2; cases b3; cases b4; cases b5; cases b6; cases b7;
      simp add: is_digit_def code_def)

lemma is_space_Char:
  "is_space (Char b0 b1 b2 b3 b4 b5 b6 b7) =
     (if b7 then (\<not> b6 \<and> (if b5 then (\<not> b4 \<and> (\<not> b3 \<and> (\<not> b2 \<and> (\<not> b1 \<and> \<not> b0)))) else (\<not> b4 \<and> (\<not> b3 \<and> (b2 \<and> (\<not> b1 \<and> b0)))))) else (\<not> b6 \<and> (if b5 then (\<not> b4 \<and> (\<not> b3 \<and> (\<not> b2 \<and> (\<not> b1 \<and> \<not> b0)))) else (if b4 then (b3 \<and> b2) else (b3 \<and> (if b2 then \<not> b1 else (b1 \<or> b0)))))))"
  by (cases b0; cases b1; cases b2; cases b3; cases b4; cases b5; cases b6; cases b7;
      simp add: is_space_def code_def Let_def)

lemma is_word_Char:
  "is_word (Char b0 b1 b2 b3 b4 b5 b6 b7) =
     (if b7 then (if b6 then (if b5 then (\<not> b4 \<or> (b3 \<or> (\<not> b2 \<or> (\<not> b1 \<or> \<not> b0)))) else (\<not> b4 \<or> (b3 \<or> (\<not> b2 \<or> (\<not> b1 \<or> \<not> b0))))) else (b5 \<and> (if b4 then (if b3 then (if b2 then (\<not> b1 \<or> \<not> b0) else (if b1 then \<not> b0 else b0)) else (if b2 then (\<not> b1 \<and> b0) else b1)) else (b3 \<and> (\<not> b2 \<and> (b1 \<and> \<not> b0)))))) else (if b6 then (if b5 then (if b4 then (\<not> b3 \<or> (\<not> b2 \<and> (\<not> b1 \<or> \<not> b0))) else (b3 \<or> (b2 \<or> (b1 \<or> b0)))) else (if b4 then (\<not> b3 \<or> (if b2 then (b1 \<and> b0) else (\<not> b1 \<or> \<not> b0))) else (b3 \<or> (b2 \<or> (b1 \<or> b0))))) else (b5 \<and> (b4 \<and> (\<not> b3 \<or> (\<not> b2 \<and> \<not> b1))))))"
  by (cases b0; cases b1; cases b2; cases b3; cases b4; cases b5; cases b6; cases b7;
      simp add: is_word_def code_def Let_def)

lemma lower_char_Char:
  "lower_char (Char b0 b1 b2 b3 b4 b5 b6 b7) =
     (if (if b7 then (b6 \<and> (\<not> b5 \<and> (\<not> b4 \<or> (if b3 then (\<not> b2 \<or> (\<not> b1 \<or> \<not> b0)) else (\<not> b2 \<or> (\<not> b1 \<or> \<not> b0)))))) else (b6 \<and> (\<not> b5 \<and> (if b4 then (\<not> b3 \<or> (\<not> b2 \<and> (\<not> b1 \<or> \<not> b0))) else (b3 \<or> (b2 \<or> (b1 \<or> b0)))))))
      then Char b0 b1 b2 b3 b4 True b6 b7 else Char b0 b1 b2 b3 b4 b5 b6 b7)"
  by (cases b0; cases b1; cases b2; cases b3; cases b4; cases b5; cases b6; cases b7;
      simp add: lower_char_def code_def Let_def char_of_eq_iff)

lemmas char_eval = is_digit_Char is_space_Char is_word_Char lower_char_Char

section \<open>The example of the specification\<close>

text \<open>
  C2: the spec's example. On \<^verbatim>\<open>Movie.Title.2019.1080p.BluRay.x264-GROUP.mkv\<close> as a file,
  \<^verbatim>\<open>format_name\<close> returns \<^verbatim>\<open>Movie Title 2019 (2019).mkv\<close>, not \<^verbatim>\<open>Movie Title (2019).mkv\<close>:
  the year is read at the first four digits in a row, but the title is cut at the last
  place where four digits follow one another, the 1080 of the resolution.
\<close>

theorem format_name_example:
  "format_name ''Movie.Title.2019.1080p.BluRay.x264-GROUP.mkv'' True None
     = ''Movie Title 2019 (2019).mkv''"
proof -
  have sp: "splitext ''Movie.Title.2019.1080p.BluRay.x264-GROUP.mkv''
      = (''Movie.Title.2019.1080p.BluRay.x264-GROUP'', ''.mkv'')"
    by (simp add: splitext_def rfind_def)
  have am: "replace_amp ''Movie.Title.2019.1080p.BluRay.x264-GROUP''
      = ''Movie.Title.2019.1080p.BluRay.x264-GROUP''"
    by (simp add: replace_amp_def)
  have sp2: "splitext ''Movie.Title.2019.1080p.BluRay.x264-GROUP''
      = (''Movie.Title.2019.1080p.BluRay'', ''.x264-GROUP'')"
    by (simp add: splitext_def rfind_def)
  have nc: "\<not> correct_format ''Movie.Title.2019.1080p.BluRay''"
    by (simp add: correct_format_def title_year_def year_suffix_def char_eval)
  have s1: "sub_runs is_separator False ''Movie.Title.2019.1080p.BluRay.x264-GROUP''
      = ''Movie Title 2019 1080p BluRay x264 GROUP''"
    by (simp add: is_separator_def)
  have s2: "remove_patterns ''Movie Title 2019 1080p BluRay x264 GROUP''
      = ''Movie Title 2019 1080p BluRay  GROUP''"
    by (simp add: remove_patterns_def patterns_to_remove_def lit_def match_len_def char_eval)
  have s3: "search_year ''Movie Title 2019 1080p BluRay  GROUP''
      = Some (''Movie Title '', ''2019'', '' 1080p BluRay  GROUP'')"
    by (simp add: four_digits_def char_eval)
  have s4: "sub_year_cut ''Movie Title 2019 1080p BluRay  GROUP'' = ''Movie Title 2019 ''"
    by (simp add: sub_year_cut_def cut_line_def four_digits_def char_eval)
  have s5: "with_year ''Movie Title 2019 1080p BluRay  GROUP'' None = ''Movie Title 2019 (2019)''"
    unfolding with_year_def s3 s4 by (simp add: strip_def char_eval)
  have s6: "tidy ''Movie Title 2019 (2019)'' = ''Movie Title 2019 (2019)''"
    by (simp add: tidy_def sub_trailing_def strip_def char_eval)
  show ?thesis
    unfolding format_name_def Let_def if_True sp prod.case am sp2 fst_conv s1 s2 s5 s6
    using nc by simp
qed

section \<open>Paths and the canonical pattern\<close>

lemma special_not_word_space:
  "c \<in> {CHR ''.'', CHR ''&'', CHR ''/'', CHR ''-''} \<Longrightarrow> \<not> is_word c \<and> \<not> is_space c"
  by (auto simp: char_eval)

lemma rfind_notin: "c \<notin> set s \<Longrightarrow> rfind s c = - 1"
  by (simp add: rfind_def)

lemma rfind_last: "c \<notin> set r \<Longrightarrow> rfind (a @ c # r) c = int (length a)"
proof -
  assume "c \<notin> set r"
  then have "takeWhile (\<lambda>x. x \<noteq> c) (rev r @ c # rev a) = rev r"
    using takeWhile_append2 [of "rev r" "\<lambda>x. x \<noteq> c" "c # rev a"] by auto
  then show ?thesis by (simp add: rfind_def)
qed

lemma rfind_bounds: "- 1 \<le> rfind s c \<and> rfind s c < int (length s)"
proof (cases "c \<in> set s")
  case True
  then obtain a r where "s = a @ c # r" "c \<notin> set r" by (meson split_list_last)
  then show ?thesis by (simp add: rfind_last)
next
  case False
  then show ?thesis by (simp add: rfind_notin)
qed

lemma splitext_append: "fst (splitext p) @ snd (splitext p) = p"
  by (simp add: splitext_def Let_def)

lemma splitext_nodot: "CHR ''.'' \<notin> set p \<Longrightarrow> splitext p = (p, [])"
  using rfind_bounds [of p "CHR ''/''"] by (simp add: splitext_def Let_def rfind_notin)

lemma splitext_ext:
  "snd (splitext p) = [] \<or>
   (\<exists>a r. p = a @ CHR ''.'' # r \<and> splitext p = (a, CHR ''.'' # r) \<and>
          CHR ''.'' \<notin> set r \<and> CHR ''/'' \<notin> set r)"
proof (cases "CHR ''.'' \<in> set p")
  case False
  then show ?thesis by (simp add: splitext_nodot)
next
  case True
  then obtain a r where p: "p = a @ CHR ''.'' # r" and r: "CHR ''.'' \<notin> set r"
    by (meson split_list_last)
  have dot: "rfind p CHR ''.'' = int (length a)" using p r by (simp add: rfind_last)
  show ?thesis
  proof (cases "CHR ''/'' \<in> set r")
    case True
    then obtain r1 r2 where r12: "r = r1 @ CHR ''/'' # r2" "CHR ''/'' \<notin> set r2"
      by (meson split_list_last)
    have "p = (a @ CHR ''.'' # r1) @ CHR ''/'' # r2" using p r12 by simp
    then have "rfind p CHR ''/'' = int (length (a @ CHR ''.'' # r1))"
      using r12(2) rfind_last by blast
    then have "splitext p = (p, [])" using dot by (simp add: splitext_def Let_def)
    then show ?thesis by simp
  next
    case False
    have "splitext p = (p, []) \<or> splitext p = (take (length a) p, drop (length a) p)"
      using dot by (simp add: splitext_def Let_def)
    then show ?thesis using p r False by auto
  qed
qed

lemma replace_amp_id: "CHR ''&'' \<notin> set s \<Longrightarrow> replace_amp s = s"
  by (induction s) (auto simp: replace_amp_def)

lemma replace_amp_no_amp: "CHR ''&'' \<notin> set (replace_amp s)"
  by (induction s) (auto simp: replace_amp_def)

lemma replace_amp_append: "replace_amp (a @ b) = replace_amp a @ replace_amp b"
  by (simp add: replace_amp_def)

lemma replace_amp_set: "c \<notin> set ''and&'' \<Longrightarrow> c \<in> set (replace_amp s) \<longleftrightarrow> c \<in> set s"
  by (induction s) (auto simp: replace_amp_def)

lemma digit_is_word: "is_digit c \<Longrightarrow> is_word c"
  by (simp add: is_digit_def is_word_def Let_def)

lemma year_suffix_chars:
  "year_suffix r \<Longrightarrow> c \<in> set r \<Longrightarrow> is_word c \<or> is_space c \<or> c = CHR ''('' \<or> c = CHR '')''"
  by (auto simp: year_suffix_def digit_is_word is_space_Char split: list.splits)

lemma title_year_chars:
  assumes "title_year s" "c \<in> set s"
  shows "is_word c \<or> is_space c \<or> c = CHR ''('' \<or> c = CHR '')''"
proof -
  have "set s = set (take (length s - 7) s) \<union> set (drop (length s - 7) s)"
    using set_append [of "take (length s - 7) s" "drop (length s - 7) s"] by simp
  then have "c \<in> set (take (length s - 7) s) \<or> c \<in> set (drop (length s - 7) s)"
    using assms(2) by blast
  then show ?thesis
  proof
    assume "c \<in> set (take (length s - 7) s)"
    then show ?thesis using assms(1) by (auto simp: title_year_def list_all_iff)
  next
    assume "c \<in> set (drop (length s - 7) s)"
    moreover have "year_suffix (drop (length s - 7) s)" using assms(1) by (simp add: title_year_def)
    ultimately show ?thesis using year_suffix_chars by blast
  qed
qed

lemma correct_format_chars:
  assumes "correct_format s" "c \<in> set s"
  shows "is_word c \<or> is_space c \<or> c = CHR ''('' \<or> c = CHR '')''"
proof (cases "title_year s")
  case True
  then show ?thesis using assms(2) title_year_chars by blast
next
  case False
  then have s: "s \<noteq> []" "last s = CHR 0x0A" "title_year (butlast s)"
    using assms(1) by (auto simp: correct_format_def)
  have "s = butlast s @ [CHR 0x0A]" using s(1,2) by (metis append_butlast_last_id)
  then have "set s = set (butlast s) \<union> {CHR 0x0A}"
    using set_append [of "butlast s" "[CHR 0x0A]"] by simp
  then have "c \<in> set (butlast s) \<or> c = CHR 0x0A" using assms(2) by blast
  moreover have "is_space (CHR 0x0A)" by (simp add: char_eval)
  ultimately show ?thesis using s(3) title_year_chars by blast
qed

lemma correct_format_no_special:
  assumes "correct_format s"
  shows "CHR ''.'' \<notin> set s \<and> CHR ''&'' \<notin> set s \<and> CHR ''/'' \<notin> set s"
proof -
  have "c \<notin> set s" if "c \<in> {CHR ''.'', CHR ''&'', CHR ''/'', CHR ''-''}" for c
  proof
    assume "c \<in> set s"
    then have "is_word c \<or> is_space c \<or> c = CHR ''('' \<or> c = CHR '')''"
      using assms correct_format_chars by blast
    then show False using that special_not_word_space [of c] by auto
  qed
  then show ?thesis by simp
qed

section \<open>Canonical names\<close>

lemma short_circuit:
  assumes "correct_format entity1"
  shows "replace_amp entity1 = entity1 \<and> fst (splitext entity1) = entity1"
  using assms correct_format_no_special [of entity1]
  by (simp add: replace_amp_id splitext_nodot)

text \<open>
  C4: a name in canonical form is returned as it is. The canonical form is the one the
  short-circuit tests: the name of a directory, or the stem of a file (what
  \<^verbatim>\<open>os.path.splitext\<close> leaves of it), matches the pattern of a title and a year in
  parentheses. Then \<^verbatim>\<open>format_name\<close> returns the name it was given, whatever year the
  caller supplies.
\<close>

theorem format_name_canonical:
  assumes "correct_format (if is_file then fst (splitext name) else name)"
  shows "format_name name is_file year_from_file = name"
proof (cases is_file)
  case True
  then have c: "correct_format (fst (splitext name))" using assms by simp
  obtain stem ext where se: "splitext name = (stem, ext)" by (cases "splitext name")
  then have "stem @ ext = name" using splitext_append [of name] by simp
  moreover have "replace_amp stem = stem \<and> fst (splitext stem) = stem"
    using c se short_circuit by simp
  ultimately show ?thesis using True c se by (simp add: format_name_def)
next
  case False
  then have c: "correct_format name" using assms by simp
  then have "replace_amp name = name \<and> fst (splitext name) = name"
    using short_circuit by simp
  then show ?thesis using False c by (simp add: format_name_def)
qed

theorem format_name_canonical_witness:
  "correct_format (if True then fst (splitext ''Movie Title (2019).mkv'') else ''Movie Title (2019).mkv'')
   \<and> format_name ''Movie Title (2019).mkv'' True None = ''Movie Title (2019).mkv''"
proof -
  have sp: "splitext ''Movie Title (2019).mkv'' = (''Movie Title (2019)'', ''.mkv'')"
    by (simp add: splitext_def rfind_def)
  have c: "correct_format ''Movie Title (2019)''"
    by (simp add: correct_format_def title_year_def year_suffix_def char_eval)
  have h: "correct_format (if True then fst (splitext ''Movie Title (2019).mkv'') else ''Movie Title (2019).mkv'')"
    using c by (simp add: sp)
  show ?thesis using h format_name_canonical [OF h, of None] by simp
qed

section \<open>Entries that \<^verbatim>\<open>rename_entity\<close> skips\<close>

text \<open>
  C8: an entry whose name starts with a dot is skipped. Whatever the mode, the flag and
  the file system, \<^verbatim>\<open>rename_entity\<close> returns without an error, and all it leaves is one
  record of level INFO in the log: no call of \<^verbatim>\<open>os.rename\<close>, and the file system as it was.
\<close>

theorem rename_entity_hidden:
  assumes "startswith entity ''.''"
  shows "rename_entity os root_path entity dry_run ignored_dirs is_file w
    = Inr (w\<lparr>trace := trace w @ [Log INFO ''Skipping hidden file or directory: %s'' [entity]]\<rparr>)"
  using assms by (simp add: rename_entity_def logging_info_def emit_def)

theorem rename_entity_hidden_witness:
  "startswith ''.hidden.mkv'' ''.'' \<and>
   rename_entity tree_os ''/m'' ''.hidden.mkv'' False [] True \<lparr>filesystem = [], trace = []\<rparr>
    = Inr \<lparr>filesystem = [], trace = [Log INFO ''Skipping hidden file or directory: %s'' [''.hidden.mkv'']]\<rparr>"
proof -
  have h: "startswith ''.hidden.mkv'' ''.''" by (simp add: startswith_def)
  show ?thesis
    using h rename_entity_hidden [OF h, of tree_os "''/m''" False "[]" True "\<lparr>filesystem = [], trace = []\<rparr>"]
    by simp
qed

lemma lower_char_dot: "lower_char c = CHR ''.'' \<longleftrightarrow> c = CHR ''.''"
  by (cases c) (auto simp: lower_char_Char split: if_splits)

lemma lower_dot_suffix:
  assumes "lower suf = CHR ''.'' # e" "CHR ''.'' \<notin> set e"
  shows "\<exists>s'. suf = CHR ''.'' # s' \<and> CHR ''.'' \<notin> set s'"
proof -
  obtain c s' where suf: "suf = c # s'" using assms(1) by (cases suf) (auto simp: lower_def)
  then have c: "lower_char c = CHR ''.''" and e: "map lower_char s' = e"
    using assms(1) by (auto simp: lower_def)
  have "CHR ''.'' \<notin> set s'"
  proof
    assume "CHR ''.'' \<in> set s'"
    then have "lower_char (CHR ''.'') \<in> set e" using e by auto
    moreover have "lower_char (CHR ''.'') = CHR ''.''" by (simp add: lower_char_Char)
    ultimately show False using assms(2) by simp
  qed
  then show ?thesis using suf c by (simp add: lower_char_dot)
qed

lemma splitext_entry:
  assumes "CHR ''/'' \<notin> set entity" "\<not> startswith entity ''.''"
    and "entity = pre @ CHR ''.'' # s'" "CHR ''.'' \<notin> set s'"
  shows "splitext entity = (pre, CHR ''.'' # s')"
proof -
  have dot: "rfind entity CHR ''.'' = int (length pre)" using assms(3,4) by (simp add: rfind_last)
  have sep: "rfind entity CHR ''/'' = - 1" using assms(1) by (simp add: rfind_notin)
  obtain c pre' where pre: "pre = c # pre'" "c \<noteq> CHR ''.''"
    using assms(2,3) by (cases pre) (auto simp: startswith_def)
  then have lx: "list_ex (\<lambda>c. c \<noteq> CHR ''.'') pre" by simp
  have "splitext (pre @ CHR ''.'' # s') = (pre, CHR ''.'' # s')"
    using dot sep lx unfolding assms(3) by (simp add: splitext_def Let_def)
  then show ?thesis using assms(3) by simp
qed

lemma ignored_extension_form:
  "ext \<in> set ignore_extensions \<Longrightarrow> \<exists>e. ext = CHR ''.'' # e \<and> CHR ''.'' \<notin> set e"
  by (auto simp: ignore_extensions_def)

lemma ignored_extension_split:
  assumes "CHR ''/'' \<notin> set entity" "\<not> startswith entity ''.''" "has_ignored_extension entity"
  shows "lower (snd (splitext entity)) \<in> set ignore_extensions"
proof -
  obtain ext where ext: "ext \<in> set ignore_extensions" "ends_with_ci entity ext"
    using assms(3) by (auto simp: has_ignored_extension_def list_ex_iff)
  define pre where "pre = take (length entity - length ext) entity"
  define suf where "suf = drop (length entity - length ext) entity"
  have ent: "entity = pre @ suf" by (simp add: pre_def suf_def)
  have low: "lower suf = ext" using ext(2) by (simp add: ends_with_ci_def suf_def)
  obtain e where e: "ext = CHR ''.'' # e" "CHR ''.'' \<notin> set e"
    using ext(1) ignored_extension_form by blast
  obtain s' where s': "suf = CHR ''.'' # s'" "CHR ''.'' \<notin> set s'"
    using low e lower_dot_suffix by blast
  have "splitext entity = (pre, suf)"
    using splitext_entry [OF assms(1,2), of pre s'] ent s' by simp
  then show ?thesis using low ext(1) by simp
qed

text \<open>
  C10: the test of the extension does not look at the flag. An entry whose name (no
  slash in it) ends in one of the ignored extensions, in any case of the letters, is
  skipped whether it is a file or a directory: \<^verbatim>\<open>rename_entity\<close> returns after one record
  of level INFO, with no call of \<^verbatim>\<open>os.listdir\<close> or \<^verbatim>\<open>os.rename\<close>. The record is the one of
  the first test that applies: the hidden name, the ignored parent, or the extension.
\<close>

theorem rename_entity_ignored_extension:
  assumes "CHR ''/'' \<notin> set entity" "has_ignored_extension entity"
  shows "rename_entity os root_path entity dry_run ignored_dirs is_file w
    = Inr (w\<lparr>trace := trace w @
        [if startswith entity ''.'' then Log INFO ''Skipping hidden file or directory: %s'' [entity]
         else if basename root_path \<in> set ignored_dirs
           then Log INFO ''Skipping ignored directory: %s'' [root_path]
         else Log INFO ''Skipping renaming of file with ignored extension: %s'' [entity]]\<rparr>)"
proof (cases "startswith entity ''.''")
  case True
  then show ?thesis by (simp add: rename_entity_def logging_info_def emit_def)
next
  case False
  then have "lower (snd (splitext entity)) \<in> set ignore_extensions"
    using assms ignored_extension_split by blast
  then show ?thesis using False by (simp add: rename_entity_def logging_info_def emit_def Let_def)
qed

theorem rename_entity_ignored_extension_witness:
  "CHR ''/'' \<notin> set ''Extras.NFO'' \<and> has_ignored_extension ''Extras.NFO'' \<and>
   rename_entity tree_os ''/m'' ''Extras.NFO'' False [] False \<lparr>filesystem = [], trace = []\<rparr>
    = Inr \<lparr>filesystem = [],
           trace = [Log INFO ''Skipping renaming of file with ignored extension: %s'' [''Extras.NFO'']]\<rparr>"
proof -
  have h1: "CHR ''/'' \<notin> set ''Extras.NFO''" by simp
  have h2: "has_ignored_extension ''Extras.NFO''"
    by (simp add: has_ignored_extension_def ignore_extensions_def ends_with_ci_def lower_def char_eval)
  have b: "basename ''/m'' = ''m''" by (simp add: basename_def rfind_def)
  have s: "\<not> startswith ''Extras.NFO'' ''.''" by (simp add: startswith_def)
  show ?thesis
    using h1 h2 rename_entity_ignored_extension [OF h1 h2, of tree_os "''/m''" False "[]" False
        "\<lparr>filesystem = [], trace = []\<rparr>"]
    by (simp add: b s)
qed

section \<open>The characters of a formatted name\<close>

lemma sub_runs_set: "set (sub_runs P b s) \<subseteq> {c \<in> set s. \<not> P c} \<union> {CHR '' ''}"
  by (induction s arbitrary: b) auto

lemma sub_delete_set: "set (sub_delete m k s) \<subseteq> set s"
proof (induction s arbitrary: k)
  case Nil
  then show ?case by simp
next
  case (Cons x xs)
  show ?case
  proof (cases k)
    case 0
    then show ?thesis using Cons [of 0] Cons
      by (auto split: option.splits nat.splits)
  next
    case (Suc n)
    then show ?thesis using Cons [of n] by auto
  qed
qed

lemma remove_patterns_set: "set (remove_patterns s) \<subseteq> set s"
proof -
  have "set (foldl (\<lambda>n p. sub_delete (match_len p) 0 n) s ps) \<subseteq> set s" for ps
  proof (induction ps arbitrary: s)
    case Nil
    then show ?case by simp
  next
    case (Cons p ps)
    have "set (foldl (\<lambda>n p. sub_delete (match_len p) 0 n) (sub_delete (match_len p) 0 s) ps)
        \<subseteq> set (sub_delete (match_len p) 0 s)"
      using Cons by blast
    then show ?case using sub_delete_set [of "match_len p" 0 s] by auto
  qed
  then show ?thesis by (simp add: remove_patterns_def)
qed

lemma strip_set: "set (strip s) \<subseteq> set s"
proof -
  have "set (dropWhile is_space (rev (dropWhile is_space s))) \<subseteq> set (rev (dropWhile is_space s))"
    by (meson set_dropWhileD subsetI)
  moreover have "set (dropWhile is_space s) \<subseteq> set s" by (meson set_dropWhileD subsetI)
  ultimately show ?thesis by (auto simp: strip_def)
qed

lemma sub_trailing_set: "set (sub_trailing s) \<subseteq> set s"
proof -
  have "set (dropWhile (\<lambda>c. c = CHR ''-'' \<or> is_space c) (rev s)) \<subseteq> set (rev s)"
    by (meson set_dropWhileD subsetI)
  then show ?thesis by (simp add: sub_trailing_def)
qed

lemma tidy_set: "set (tidy s) \<subseteq> set s \<union> {CHR '' ''}"
proof -
  have "set (tidy s) \<subseteq> set (sub_runs is_space False (strip (sub_trailing s)))"
    using strip_set by (simp add: tidy_def)
  also have "\<dots> \<subseteq> set (strip (sub_trailing s)) \<union> {CHR '' ''}"
    using sub_runs_set [of is_space False "strip (sub_trailing s)"] by auto
  also have "\<dots> \<subseteq> set s \<union> {CHR '' ''}"
    using strip_set [of "sub_trailing s"] sub_trailing_set [of s] by auto
  finally show ?thesis .
qed

lemma greedy_group_set: "greedy_group s = Some g \<Longrightarrow> set g \<subseteq> set s"
  by (induction s arbitrary: g) (auto split: option.splits if_splits)

lemma cut_line_set: "set (cut_line l) \<subseteq> set l"
  using greedy_group_set by (auto simp: cut_line_def split: option.splits)

lemma cut_lines_set: "set (cut_lines l s) \<subseteq> set l \<union> set s"
proof (induction s arbitrary: l)
  case Nil
  then show ?case using cut_line_set by simp
next
  case (Cons c cs)
  show ?case
  proof (cases "c = CHR 0x0A")
    case True
    then show ?thesis using Cons [of "[]"] cut_line_set [of l] by auto
  next
    case False
    then show ?thesis using Cons [of "l @ [c]"] by auto
  qed
qed

lemma sub_year_cut_set: "set (sub_year_cut s) \<subseteq> set s"
  using cut_lines_set [of "[]" s] by (simp add: sub_year_cut_def)

lemma search_year_Some:
  "search_year s = Some (pre, y, post) \<Longrightarrow> s = pre @ y @ post \<and> length y = 4 \<and> list_all is_digit y"
proof (induction s arbitrary: pre)
  case Nil
  then show ?case by simp
next
  case (Cons c cs)
  show ?case
  proof (cases "four_digits (c # cs)")
    case True
    then show ?thesis using Cons.prems by (auto simp: four_digits_def)
  next
    case False
    then obtain pre' where "search_year cs = Some (pre', y, post)" "pre = c # pre'"
      using Cons.prems by (auto split: option.splits)
    then show ?thesis using Cons.IH by simp
  qed
qed

lemma digit_not_special:
  "is_digit c \<Longrightarrow> \<not> is_separator c \<and> c \<noteq> CHR ''&'' \<and> \<not> is_space c"
  by (cases c) (auto simp: char_eval is_separator_def)

lemma with_year_set:
  "set (with_year name year_from_file)
     \<subseteq> set name \<union> {CHR '' '', CHR ''('', CHR '')''}
       \<union> (case year_from_file of None \<Rightarrow> {} | Some y \<Rightarrow> set y)"
proof -
  have del: "set (sub_delete empty_parens 0 name) \<subseteq> set name" by (rule sub_delete_set)
  have cut: "set (strip (strip (sub_year_cut name))) \<subseteq> set name"
    using strip_set [of "strip (sub_year_cut name)"] strip_set [of "sub_year_cut name"]
      sub_year_cut_set [of name] by blast
  show ?thesis
  proof (cases "search_year name")
    case None
    then show ?thesis using del cut
      by (auto simp: with_year_def split: option.splits)
  next
    case (Some t)
    then obtain pre y post where t: "search_year name = Some (pre, y, post)"
      by (cases t) auto
    then have "set y \<subseteq> set name" "y \<noteq> []" using search_year_Some [OF t] by auto
    then show ?thesis using t cut by (auto simp: with_year_def)
  qed
qed

lemma cleaned_set: "set (cleaned s) \<subseteq> {c \<in> set s. \<not> is_separator c} \<union> {CHR '' ''}"
  using remove_patterns_set [of "sub_runs is_separator False s"] sub_runs_set [of is_separator False s]
  by (auto simp: cleaned_def)

lemma title_set:
  "set (tidy (with_year (cleaned s) year_from_file))
     \<subseteq> {c \<in> set s. \<not> is_separator c} \<union> {CHR '' '', CHR ''('', CHR '')''}
       \<union> (case year_from_file of None \<Rightarrow> {} | Some y \<Rightarrow> set y)"
  using tidy_set [of "with_year (cleaned s) year_from_file"]
    with_year_set [of "cleaned s" year_from_file] cleaned_set [of s]
  by blast

lemma format_name_title:
  "format_name name is_file year_from_file =
     (if is_file then title_of (fst (splitext name)) year_from_file @ snd (splitext name)
      else title_of name year_from_file)"
  by (simp add: format_name_def title_of_def cleaned_def Let_def split: prod.splits)

section \<open>Ampersands\<close>

lemma title_of_no_amp:
  assumes "CHR ''&'' \<notin> set (case year_from_file of None \<Rightarrow> [] | Some y \<Rightarrow> y)"
  shows "CHR ''&'' \<notin> set (title_of stem year_from_file)"
proof (cases "correct_format (fst (splitext (replace_amp stem)))")
  case True
  then show ?thesis using replace_amp_no_amp by (simp add: title_of_def)
next
  case False
  have "CHR ''&'' \<notin> set (replace_amp stem)" by (rule replace_amp_no_amp)
  moreover have "CHR ''&'' \<notin> (case year_from_file of None \<Rightarrow> {} | Some y \<Rightarrow> set y)"
    using assms by (cases year_from_file) auto
  ultimately have "CHR ''&'' \<notin> set (tidy (with_year (cleaned (replace_amp stem)) year_from_file))"
    using title_set [of "replace_amp stem" year_from_file] by auto
  then show ?thesis using False by (simp add: title_of_def)
qed

text \<open>
  C5, as amended: \<^verbatim>\<open>format_name\<close> replaces the ampersands of the stem by \<^verbatim>\<open>and\<close> before
  anything else, and the title it returns (the result without the extension it
  reattaches) holds no ampersand, provided the year the caller supplies holds none. For
  a directory the title is the whole result. The extension of a file is reattached as it
  was, so an ampersand in it stays; and the \<^verbatim>\<open>and\<close> is part of the title, which the cut
  at the year may shorten.
\<close>

theorem format_name_ampersand:
  assumes "CHR ''&'' \<notin> set (case year_from_file of None \<Rightarrow> [] | Some y \<Rightarrow> y)"
  shows "format_name name is_file year_from_file
      = title_of (if is_file then fst (splitext name) else name) year_from_file
        @ (if is_file then snd (splitext name) else [])
    \<and> CHR ''&'' \<notin> set (title_of (if is_file then fst (splitext name) else name) year_from_file)"
  using title_of_no_amp [OF assms] by (simp add: format_name_title)

theorem format_name_ampersand_witness:
  "CHR ''&'' \<notin> set (case None of None \<Rightarrow> [] | Some y \<Rightarrow> y) \<and>
   format_name ''Law.&.Order.mkv'' True None = ''Law and Order'' @ ''.mkv'' \<and>
   CHR ''&'' \<notin> set ''Law and Order''"
proof -
  have w_sp: "splitext ''Law.&.Order.mkv'' = (''Law.&.Order'', ''.mkv'')"
    by (simp add: splitext_def rfind_def)
  have w_am: "replace_amp ''Law.&.Order'' = ''Law.and.Order''"
    by (simp add: replace_amp_def)
  have w_sp2: "splitext ''Law.and.Order'' = (''Law.and'', ''.Order'')"
    by (simp add: splitext_def rfind_def)
  have w_nc: "\<not> correct_format ''Law.and''"
    by (simp add: correct_format_def title_year_def year_suffix_def char_eval)
  have w_s1: "sub_runs is_separator False ''Law.and.Order'' = ''Law and Order''"
    by (simp add: is_separator_def)
  have w_s2: "remove_patterns ''Law and Order'' = ''Law and Order''"
    by (simp add: remove_patterns_def patterns_to_remove_def lit_def match_len_def char_eval)
  have w_s3: "search_year ''Law and Order'' = None"
    by (simp add: four_digits_def char_eval)
  have w_s5: "with_year ''Law and Order'' None = ''Law and Order''"
    unfolding with_year_def w_s3 by (simp add: empty_parens_def startswith_def char_eval)
  have w_s6: "tidy ''Law and Order'' = ''Law and Order''"
    by (simp add: tidy_def sub_trailing_def strip_def char_eval)
  have w_ti: "title_of ''Law.&.Order'' None = ''Law and Order''"
    unfolding title_of_def cleaned_def Let_def w_am w_sp2 fst_conv w_s1 w_s2 w_s5 w_s6 using w_nc by simp
  have w_fn: "format_name ''Law.&.Order.mkv'' True None = ''Law and Order.mkv''"
    unfolding format_name_title w_sp fst_conv snd_conv w_ti by simp
  have h: "CHR ''&'' \<notin> set (case None :: string option of None \<Rightarrow> [] | Some y \<Rightarrow> y)" by simp
  show ?thesis
    using format_name_ampersand [OF h, of "''Law.&.Order.mkv''" True]
    by (simp add: w_sp w_ti)
qed

text \<open>
  C5 as it is worded fails in both of its parts. The file name \<^verbatim>\<open>Mr.& Mrs Smith\<close> has its
  ampersand after the last dot, in what \<^verbatim>\<open>os.path.splitext\<close> takes for the extension, and
  comes back unchanged; and \<^verbatim>\<open>2012.Fast.&.Furious.mkv\<close> comes back as \<^verbatim>\<open>(2012).mkv\<close>,
  the \<^verbatim>\<open>and\<close> cut away with everything from the year on.
\<close>

theorem format_name_ampersand_counterexample:
  "CHR ''&'' \<in> set ''Mr.& Mrs Smith'' \<and>
   CHR ''&'' \<in> set (format_name ''Mr.& Mrs Smith'' True None) \<and>
   CHR ''&'' \<in> set ''2012.Fast.&.Furious.mkv'' \<and>
   format_name ''2012.Fast.&.Furious.mkv'' True None = ''(2012).mkv''"
proof -
  have a_sp: "splitext ''Mr.& Mrs Smith'' = (''Mr'', ''.& Mrs Smith'')"
    by (simp add: splitext_def rfind_def)
  have a_am: "replace_amp ''Mr'' = ''Mr''"
    by (simp add: replace_amp_def)
  have a_sp2: "splitext ''Mr'' = (''Mr'', '''')"
    by (simp add: splitext_def rfind_def)
  have a_nc: "\<not> correct_format ''Mr''"
    by (simp add: correct_format_def title_year_def year_suffix_def char_eval)
  have a_s1: "sub_runs is_separator False ''Mr'' = ''Mr''"
    by (simp add: is_separator_def)
  have a_s2: "remove_patterns ''Mr'' = ''Mr''"
    by (simp add: remove_patterns_def patterns_to_remove_def lit_def match_len_def char_eval)
  have a_s3: "search_year ''Mr'' = None"
    by (simp add: four_digits_def char_eval)
  have a_s5: "with_year ''Mr'' None = ''Mr''"
    unfolding with_year_def a_s3 by (simp add: empty_parens_def startswith_def char_eval)
  have a_s6: "tidy ''Mr'' = ''Mr''"
    by (simp add: tidy_def sub_trailing_def strip_def char_eval)
  have a_ti: "title_of ''Mr'' None = ''Mr''"
    unfolding title_of_def cleaned_def Let_def a_am a_sp2 fst_conv a_s1 a_s2 a_s5 a_s6 using a_nc by simp
  have a_fn: "format_name ''Mr.& Mrs Smith'' True None = ''Mr.& Mrs Smith''"
    unfolding format_name_title a_sp fst_conv snd_conv a_ti by simp
  have b_sp: "splitext ''2012.Fast.&.Furious.mkv'' = (''2012.Fast.&.Furious'', ''.mkv'')"
    by (simp add: splitext_def rfind_def)
  have b_am: "replace_amp ''2012.Fast.&.Furious'' = ''2012.Fast.and.Furious''"
    by (simp add: replace_amp_def)
  have b_sp2: "splitext ''2012.Fast.and.Furious'' = (''2012.Fast.and'', ''.Furious'')"
    by (simp add: splitext_def rfind_def)
  have b_nc: "\<not> correct_format ''2012.Fast.and''"
    by (simp add: correct_format_def title_year_def year_suffix_def char_eval)
  have b_s1: "sub_runs is_separator False ''2012.Fast.and.Furious'' = ''2012 Fast and Furious''"
    by (simp add: is_separator_def)
  have b_s2: "remove_patterns ''2012 Fast and Furious'' = ''2012 Fast and Furious''"
    by (simp add: remove_patterns_def patterns_to_remove_def lit_def match_len_def char_eval)
  have b_s3: "search_year ''2012 Fast and Furious'' = Some ('''', ''2012'', '' Fast and Furious'')"
    by (simp add: four_digits_def char_eval)
  have b_s4: "sub_year_cut ''2012 Fast and Furious'' = ''''"
    by (simp add: sub_year_cut_def cut_line_def four_digits_def char_eval)
  have b_s5: "with_year ''2012 Fast and Furious'' None = '' (2012)''"
    unfolding with_year_def b_s3 b_s4 by (simp add: strip_def char_eval)
  have b_s6: "tidy '' (2012)'' = ''(2012)''"
    by (simp add: tidy_def sub_trailing_def strip_def char_eval)
  have b_ti: "title_of ''2012.Fast.&.Furious'' None = ''(2012)''"
    unfolding title_of_def cleaned_def Let_def b_am b_sp2 fst_conv b_s1 b_s2 b_s5 b_s6 using b_nc by simp
  have b_fn: "format_name ''2012.Fast.&.Furious.mkv'' True None = ''(2012).mkv''"
    unfolding format_name_title b_sp fst_conv snd_conv b_ti by simp
  show ?thesis unfolding a_fn b_fn by simp
qed

section \<open>The patterns of the catalog\<close>

lemma lower_char_separator:
  "is_separator c \<Longrightarrow> lower_char x = lower_char c \<Longrightarrow> x = c"
  by (cases x) (auto simp: lower_char_Char is_separator_def split: if_splits)

lemma match_lens_separator:
  "match_lens p s \<noteq> [] \<Longrightarrow> Ch c \<in> set p \<Longrightarrow> is_separator c \<Longrightarrow> c \<in> set s"
proof (induction p arbitrary: s)
  case Nil
  then show ?case by simp
next
  case (Cons a as)
  show ?case
  proof (cases a)
    case (Ch c')
    obtain x xs where s: "s = x # xs" using Cons.prems(1) Ch by (cases s) auto
    then have m: "lower_char x = lower_char c'" "match_lens as xs \<noteq> []"
      using Cons.prems(1) Ch by (auto split: if_splits)
    show ?thesis
    proof (cases "c = c'")
      case True
      then show ?thesis using m(1) Cons.prems(3) lower_char_separator s by auto
    next
      case False
      then have "Ch c \<in> set as" using Cons.prems(2) Ch by simp
      then show ?thesis using Cons.IH [OF m(2)] Cons.prems(3) s by simp
    qed
  next
    case Digits1
    then obtain k where k: "match_lens as (drop k s) \<noteq> []"
      using Cons.prems(1) by auto
    have "Ch c \<in> set as" using Cons.prems(2) Digits1 by simp
    then have "c \<in> set (drop k s)" using Cons.IH [OF k] Cons.prems(3) by simp
    then show ?thesis by (meson in_set_dropD)
  qed
qed

lemma occurs_separator:
  assumes "occurs p s" "separator_pattern p"
  shows "\<exists>c \<in> set s. is_separator c"
proof -
  obtain k where "match_len p (drop k s) \<noteq> None"
    using assms(1) unfolding occurs_def list_ex_iff by blast
  then have k: "match_lens p (drop k s) \<noteq> []"
    by (auto simp: match_len_def)
  obtain a where a: "a \<in> set p" "case a of Ch c \<Rightarrow> is_separator c | Digits1 \<Rightarrow> False"
    using assms(2) unfolding separator_pattern_def list_ex_iff by blast
  have "\<exists>c. Ch c \<in> set p \<and> is_separator c"
  proof (cases a)
    case (Ch c)
    then show ?thesis using a by auto
  next
    case Digits1
    then show ?thesis using a(2) by simp
  qed
  then obtain c where c: "Ch c \<in> set p" "is_separator c" by blast
  have "c \<in> set (drop k s)" using match_lens_separator [OF k c] .
  then have "c \<in> set s" by (meson in_set_dropD)
  then show ?thesis using c(2) by blast
qed

lemma match_len_separator:
  assumes "separator_pattern p" "\<forall>c \<in> set s. \<not> is_separator c"
  shows "match_len p s = None"
proof (rule ccontr)
  assume "match_len p s \<noteq> None"
  then have "match_len p (drop 0 s) \<noteq> None" by simp
  then have "occurs p s" unfolding occurs_def list_ex_iff by (metis atLeastLessThan_iff set_upt zero_le zero_less_Suc)
  then show False using occurs_separator assms by blast
qed

lemma sub_delete_none:
  assumes "\<And>t. set t \<subseteq> set s \<Longrightarrow> m t = None"
  shows "sub_delete m 0 s = s"
  using assms
proof (induction s)
  case Nil
  then show ?case by simp
next
  case (Cons x xs)
  have "m (x # xs) = None" using Cons.prems by simp
  moreover have "sub_delete m 0 xs = xs"
  proof (rule Cons.IH)
    fix t assume "set t \<subseteq> set xs"
    then show "m t = None" using Cons.prems [of t] by auto
  qed
  ultimately show ?case by simp
qed

lemma sub_delete_separator:
  assumes "separator_pattern p" "\<forall>c \<in> set s. \<not> is_separator c"
  shows "sub_delete (match_len p) 0 s = s"
proof (rule sub_delete_none)
  fix t assume "set t \<subseteq> set s"
  then have "\<forall>c \<in> set t. \<not> is_separator c" using assms(2) by blast
  then show "match_len p t = None" using match_len_separator [OF assms(1)] by blast
qed

lemma foldl_separator:
  assumes "\<forall>c \<in> set s. \<not> is_separator c"
  shows "foldl (\<lambda>n p. sub_delete (match_len p) 0 n) s ps
       = foldl (\<lambda>n p. sub_delete (match_len p) 0 n) s (filter (\<lambda>p. \<not> separator_pattern p) ps)"
  using assms
proof (induction ps arbitrary: s)
  case Nil
  then show ?case by simp
next
  case (Cons p ps)
  show ?case
  proof (cases "separator_pattern p")
    case True
    then have "sub_delete (match_len p) 0 s = s" using sub_delete_separator Cons.prems by blast
    then show ?thesis using True Cons.IH [OF Cons.prems] by simp
  next
    case False
    have "\<forall>c \<in> set (sub_delete (match_len p) 0 s). \<not> is_separator c"
      using Cons.prems sub_delete_set [of "match_len p" 0 s] by blast
    then show ?thesis using False Cons.IH by simp
  qed
qed

text \<open>
  Line 31 runs before the loop of lines 33 and 34, and leaves no dot, underscore or
  hyphen in the name. So the patterns of the catalog that hold one never match, and the
  loop deletes what it would delete without them: of the twenty-two patterns, the seven
  bracketed tags without a dot and \<^verbatim>\<open>x264\<close>, \<^verbatim>\<open>x265\<close>, \<^verbatim>\<open>H264\<close>, \<^verbatim>\<open>H265\<close> and \<^verbatim>\<open>HEVC\<close> are left.
\<close>

lemma live_patterns:
  "filter (\<lambda>p. \<not> separator_pattern p) patterns_to_remove =
     [lit ''[1080p]'', lit ''[480p]'', lit ''[WEBRip]'', lit ''[BluRay]'', lit ''[2160p]'',
      lit ''[4K]'', lit ''[WEB]'', lit ''x264'', lit ''x265'', lit ''H264'', lit ''H265'',
      lit ''HEVC'']"
  by (simp add: patterns_to_remove_def separator_pattern_def lit_def is_separator_def)

lemma cleaned_live_patterns:
  "cleaned entity = foldl (\<lambda>n p. sub_delete (match_len p) 0 n)
      (sub_runs is_separator False entity)
      (filter (\<lambda>p. \<not> separator_pattern p) patterns_to_remove)"
proof -
  have "\<forall>c \<in> set (sub_runs is_separator False entity). \<not> is_separator c"
    using sub_runs_set [of is_separator False entity] by (auto simp: is_separator_def)
  then show ?thesis unfolding cleaned_def remove_patterns_def by (rule foldl_separator)
qed

text \<open>
  C3 fails on \<^verbatim>\<open>format_name('Show.S01E02.HDR.AC3.mkv', True)\<close>. The name holds three tags of
  the catalog, each between its dots as the pattern asks: the season and episode marker
  \<^verbatim>\<open>.S01E02.\<close>, the marker \<^verbatim>\<open>.HDR.\<close> and the audio marker \<^verbatim>\<open>.AC3.\<close>. Line 31 has turned the
  dots into spaces when the loop looks for them, none of the three patterns matches, and
  the result is \<^verbatim>\<open>Show S01E02 HDR AC3.mkv\<close>, with the three markers in it.
\<close>

theorem format_name_dotted_tags:
  "occurs [Ch CHR ''.'', Ch CHR ''S'', Digits1, Ch CHR ''E'', Digits1, Ch CHR ''.'']
      ''Show.S01E02.HDR.AC3.mkv''
   \<and> occurs (lit ''.HDR.'') ''Show.S01E02.HDR.AC3.mkv''
   \<and> occurs (lit ''.AC3.'') ''Show.S01E02.HDR.AC3.mkv''
   \<and> format_name ''Show.S01E02.HDR.AC3.mkv'' True None = ''Show S01E02 HDR AC3.mkv''"
proof -
  have d_sp: "splitext ''Show.S01E02.HDR.AC3.mkv'' = (''Show.S01E02.HDR.AC3'', ''.mkv'')"
    by (simp add: splitext_def rfind_def)
  have d_am: "replace_amp ''Show.S01E02.HDR.AC3'' = ''Show.S01E02.HDR.AC3''"
    by (simp add: replace_amp_def)
  have d_sp2: "splitext ''Show.S01E02.HDR.AC3'' = (''Show.S01E02.HDR'', ''.AC3'')"
    by (simp add: splitext_def rfind_def)
  have d_nc: "\<not> correct_format ''Show.S01E02.HDR''"
    by (simp add: correct_format_def title_year_def year_suffix_def char_eval)
  have d_s1: "sub_runs is_separator False ''Show.S01E02.HDR.AC3'' = ''Show S01E02 HDR AC3''"
    by (simp add: is_separator_def)
  have d_s2: "remove_patterns ''Show S01E02 HDR AC3'' = ''Show S01E02 HDR AC3''"
    by (simp add: remove_patterns_def patterns_to_remove_def lit_def match_len_def char_eval)
  have d_s3: "search_year ''Show S01E02 HDR AC3'' = None"
    by (simp add: four_digits_def char_eval)
  have d_s5: "with_year ''Show S01E02 HDR AC3'' None = ''Show S01E02 HDR AC3''"
    unfolding with_year_def d_s3 by (simp add: empty_parens_def startswith_def char_eval)
  have d_s6: "tidy ''Show S01E02 HDR AC3'' = ''Show S01E02 HDR AC3''"
    by (simp add: tidy_def sub_trailing_def strip_def char_eval)
  have d_ti: "title_of ''Show.S01E02.HDR.AC3'' None = ''Show S01E02 HDR AC3''"
    unfolding title_of_def cleaned_def Let_def d_am d_sp2 fst_conv d_s1 d_s2 d_s5 d_s6 using d_nc by simp
  have d_fn: "format_name ''Show.S01E02.HDR.AC3.mkv'' True None = ''Show S01E02 HDR AC3.mkv''"
    unfolding format_name_title d_sp fst_conv snd_conv d_ti by simp
  have o1: "occurs [Ch CHR ''.'', Ch CHR ''S'', Digits1, Ch CHR ''E'', Digits1, Ch CHR ''.'']
      ''Show.S01E02.HDR.AC3.mkv''"
    by (simp add: occurs_def match_len_def char_eval)
  have o2: "occurs (lit ''.HDR.'') ''Show.S01E02.HDR.AC3.mkv''"
    by (simp add: occurs_def lit_def match_len_def char_eval)
  have o3: "occurs (lit ''.AC3.'') ''Show.S01E02.HDR.AC3.mkv''"
    by (simp add: occurs_def lit_def match_len_def char_eval)
  show ?thesis using o1 o2 o3 d_fn by blast
qed

text \<open>
  The patterns that do match are deleted in one pass each, and only below the
  short-circuit of line 20, so a tag can stay without any slip. The directory name
  \<^verbatim>\<open>xx264264\<close> holds the pattern \<^verbatim>\<open>x264\<close>; the one pass of \<^verbatim>\<open>re.sub\<close> deletes it and leaves
  \<^verbatim>\<open>x264\<close>, which is returned. And the directory name \<^verbatim>\<open>Movie (2019).x264\<close> takes the
  short-circuit, which tests the name without its last dotted part, and is returned as
  it is.
\<close>

lemma format_name_tags_kept:
  "contains_tag ''xx264264'' \<and> contains_tag (format_name ''xx264264'' False None) \<and>
   contains_tag ''Movie (2019).x264'' \<and> contains_tag (format_name ''Movie (2019).x264'' False None)"
proof -
  have a_am: "replace_amp ''xx264264'' = ''xx264264''"
    by (simp add: replace_amp_def)
  have a_sp2: "splitext ''xx264264'' = (''xx264264'', '''')"
    by (simp add: splitext_def rfind_def)
  have a_nc: "\<not> correct_format ''xx264264''"
    by (simp add: correct_format_def title_year_def year_suffix_def char_eval)
  have a_s1: "sub_runs is_separator False ''xx264264'' = ''xx264264''"
    by (simp add: is_separator_def)
  have a_s2: "remove_patterns ''xx264264'' = ''x264''"
    by (simp add: remove_patterns_def patterns_to_remove_def lit_def match_len_def char_eval)
  have a_s3: "search_year ''x264'' = None"
    by (simp add: four_digits_def char_eval)
  have a_s5: "with_year ''x264'' None = ''x264''"
    unfolding with_year_def a_s3 by (simp add: empty_parens_def startswith_def char_eval)
  have a_s6: "tidy ''x264'' = ''x264''"
    by (simp add: tidy_def sub_trailing_def strip_def char_eval)
  have a_ti: "title_of ''xx264264'' None = ''x264''"
    unfolding title_of_def cleaned_def Let_def a_am a_sp2 fst_conv a_s1 a_s2 a_s5 a_s6 using a_nc by simp
  have a_fn: "format_name ''xx264264'' False None = ''x264''"
    unfolding format_name_title a_ti by simp
  have b_am: "replace_amp ''Movie (2019).x264'' = ''Movie (2019).x264''"
    by (simp add: replace_amp_def)
  have b_sp2: "splitext ''Movie (2019).x264'' = (''Movie (2019)'', ''.x264'')"
    by (simp add: splitext_def rfind_def)
  have b_nc: "correct_format ''Movie (2019)''"
    by (simp add: correct_format_def title_year_def year_suffix_def char_eval)
  have b_ti: "title_of ''Movie (2019).x264'' None = ''Movie (2019).x264''"
    unfolding title_of_def Let_def b_am b_sp2 fst_conv using b_nc by simp
  have b_fn: "format_name ''Movie (2019).x264'' False None = ''Movie (2019).x264''"
    unfolding format_name_title b_ti by simp
  have p: "lit ''x264'' \<in> set patterns_to_remove" by (simp add: patterns_to_remove_def)
  have o1: "occurs (lit ''x264'') ''xx264264''"
    by (simp add: occurs_def lit_def match_len_def char_eval)
  have o2: "occurs (lit ''x264'') ''x264''"
    by (simp add: occurs_def lit_def match_len_def char_eval)
  have o3: "occurs (lit ''x264'') ''Movie (2019).x264''"
    by (simp add: occurs_def lit_def match_len_def char_eval)
  show ?thesis unfolding a_fn b_fn using p o1 o2 o3 by (auto simp: contains_tag_def list_ex_iff)
qed

section \<open>The extension\<close>

lemma final_suffix_last: "CHR ''.'' \<notin> set r \<Longrightarrow> final_suffix (t @ CHR ''.'' # r) = CHR ''.'' # r"
  by (simp add: final_suffix_def rfind_last)

lemma final_suffix_nodot: "CHR ''.'' \<notin> set t \<Longrightarrow> final_suffix t = []"
  by (simp add: final_suffix_def)

lemma replace_amp_dots: "\<forall>c \<in> set a. c = CHR ''.'' \<Longrightarrow> replace_amp a = a"
  by (induction a) (auto simp: replace_amp_def)

lemma splitext_shape:
  assumes "p = b @ a2 @ CHR ''.'' # r" "b = [] \<or> (\<exists>b1. b = b1 @ ''/'')"
    and "CHR ''/'' \<notin> set a2" "CHR ''.'' \<notin> set r" "CHR ''/'' \<notin> set r"
  shows "splitext p = (if list_ex (\<lambda>c. c \<noteq> CHR ''.'') a2 then (b @ a2, CHR ''.'' # r) else (p, []))"
proof -
  have dot: "rfind p CHR ''.'' = int (length (b @ a2))"
    using assms(1,4) rfind_last [of "CHR ''.''" r "b @ a2"] by simp
  have sep: "rfind p CHR ''/'' + 1 = int (length b)"
  proof (cases "b = []")
    case True
    then have "CHR ''/'' \<notin> set p" using assms(1,3,5) by auto
    then show ?thesis using True by (simp add: rfind_notin)
  next
    case False
    then obtain b1 where b1: "b = b1 @ ''/''" using assms(2) by blast
    then have "p = b1 @ CHR ''/'' # (a2 @ CHR ''.'' # r)" using assms(1) by simp
    moreover have "CHR ''/'' \<notin> set (a2 @ CHR ''.'' # r)" using assms(3,5) by simp
    ultimately have "rfind p CHR ''/'' = int (length b1)" using rfind_last by blast
    then show ?thesis using b1 by simp
  qed
  have d: "nat (rfind p CHR ''.'') = length b + length a2" using dot by simp
  have s: "nat (rfind p CHR ''/'' + 1) = length b" using sep by simp
  have gt: "rfind p CHR ''.'' > rfind p CHR ''/''" using dot sep by simp
  have "drop (nat (rfind p CHR ''/'' + 1)) (take (nat (rfind p CHR ''.'')) p)
      = drop (length b) (take (length b + length a2) p)"
    by (simp only: d s)
  also have "\<dots> = a2" by (simp add: assms(1))
  finally have mid: "drop (nat (rfind p CHR ''/'' + 1)) (take (nat (rfind p CHR ''.'')) p) = a2" .
  have tk: "take (nat (rfind p CHR ''.'')) p = b @ a2" "drop (nat (rfind p CHR ''.'')) p = CHR ''.'' # r"
    unfolding d by (simp_all add: assms(1))
  have "splitext p = (if list_ex (\<lambda>c. c \<noteq> CHR ''.'') a2
      then (take (nat (rfind p CHR ''.'')) p, drop (nat (rfind p CHR ''.'')) p) else (p, []))"
    unfolding splitext_def Let_def mid using gt by simp
  then show ?thesis unfolding tk .
qed

lemma splitext_after_slash:
  assumes "p = x @ CHR ''.'' # r1 @ CHR ''/'' # r2" "CHR ''.'' \<notin> set r1" "CHR ''.'' \<notin> set r2"
  shows "splitext p = (p, [])"
proof (cases "CHR ''/'' \<in> set r2")
  case True
  then obtain r3 r4 where r: "r2 = r3 @ CHR ''/'' # r4" "CHR ''/'' \<notin> set r4" by (meson split_list_last)
  then have "p = (x @ CHR ''.'' # r1 @ CHR ''/'' # r3) @ CHR ''/'' # r4" using assms(1) by simp
  then have sep: "rfind p CHR ''/'' = int (length (x @ CHR ''.'' # r1 @ CHR ''/'' # r3))"
    using r(2) rfind_last by blast
  have "p = x @ CHR ''.'' # (r1 @ CHR ''/'' # r2)" "CHR ''.'' \<notin> set (r1 @ CHR ''/'' # r2)"
    using assms by auto
  then have "rfind p CHR ''.'' = int (length x)" using rfind_last by blast
  then show ?thesis using sep by (simp add: splitext_def Let_def)
next
  case False
  have "p = (x @ CHR ''.'' # r1) @ CHR ''/'' # r2" using assms(1) by simp
  then have sep: "rfind p CHR ''/'' = int (length (x @ CHR ''.'' # r1))"
    using False rfind_last by blast
  have "p = x @ CHR ''.'' # (r1 @ CHR ''/'' # r2)" "CHR ''.'' \<notin> set (r1 @ CHR ''/'' # r2)"
    using assms by auto
  then have "rfind p CHR ''.'' = int (length x)" using rfind_last by blast
  then show ?thesis using sep by (simp add: splitext_def Let_def)
qed


lemma last_slash_split:
  "\<exists>b a2. a = b @ a2 \<and> (b = [] \<or> (\<exists>b1. b = b1 @ ''/'')) \<and> CHR ''/'' \<notin> set a2"
proof (cases "CHR ''/'' \<in> set a")
  case True
  then obtain a1 a2 where "a = a1 @ CHR ''/'' # a2" "CHR ''/'' \<notin> set a2" by (meson split_list_last)
  then have "a = (a1 @ ''/'') @ a2 \<and> (\<exists>b1. a1 @ ''/'' = b1 @ ''/'') \<and> CHR ''/'' \<notin> set a2" by simp
  then show ?thesis by blast
next
  case False
  then have "a = [] @ a \<and> CHR ''/'' \<notin> set a" by simp
  then show ?thesis by blast
qed

lemma replace_amp_slash_end:
  "b = [] \<or> (\<exists>b1. b = b1 @ ''/'') \<Longrightarrow> replace_amp b = [] \<or> (\<exists>b1. replace_amp b = b1 @ ''/'')"
  by (auto simp: replace_amp_def)

lemma splitext_replace_amp:
  assumes "snd (splitext name) = []"
  shows "splitext (replace_amp name) = (replace_amp name, [])"
proof (cases "CHR ''.'' \<in> set name")
  case False
  then have "CHR ''.'' \<notin> set (replace_amp name)" by (simp add: replace_amp_set)
  then show ?thesis by (rule splitext_nodot)
next
  case True
  then obtain a r where n: "name = a @ CHR ''.'' # r" and r: "CHR ''.'' \<notin> set r"
    by (meson split_list_last)
  have ra: "replace_amp name = replace_amp a @ CHR ''.'' # replace_amp r"
    unfolding n by (simp add: replace_amp_def)
  have r': "CHR ''.'' \<notin> set (replace_amp r)" using r by (simp add: replace_amp_set)
  show ?thesis
  proof (cases "CHR ''/'' \<in> set r")
    case True
    then obtain r1 r2 where r12: "r = r1 @ CHR ''/'' # r2" by (meson split_list)
    have "replace_amp name = replace_amp a @ CHR ''.'' # replace_amp r1 @ CHR ''/'' # replace_amp r2"
      unfolding n r12 by (simp add: replace_amp_def)
    moreover have "CHR ''.'' \<notin> set (replace_amp r1)" "CHR ''.'' \<notin> set (replace_amp r2)"
      using r r12 by (simp_all add: replace_amp_set)
    ultimately show ?thesis using splitext_after_slash by blast
  next
    case False
    obtain b a2 where a: "a = b @ a2" "b = [] \<or> (\<exists>b1. b = b1 @ ''/'')" "CHR ''/'' \<notin> set a2"
      using last_slash_split by blast
    have "name = b @ a2 @ CHR ''.'' # r" using n a(1) by simp
    then have "splitext name
        = (if list_ex (\<lambda>c. c \<noteq> CHR ''.'') a2 then (b @ a2, CHR ''.'' # r) else (name, []))"
      using splitext_shape a(2,3) r False by blast
    then have dots: "\<not> list_ex (\<lambda>c. c \<noteq> CHR ''.'') a2" using assms by (auto split: if_splits)
    then have a2: "replace_amp a2 = a2" using replace_amp_dots by (simp add: list_ex_iff)
    have p: "replace_amp name = replace_amp b @ a2 @ CHR ''.'' # replace_amp r"
      unfolding n a(1) using a2 by (simp add: replace_amp_def)
    have "CHR ''/'' \<notin> set (replace_amp r)" using False by (simp add: replace_amp_set)
    then have "splitext (replace_amp name)
        = (if list_ex (\<lambda>c. c \<noteq> CHR ''.'') a2 then (replace_amp b @ a2, CHR ''.'' # replace_amp r)
           else (replace_amp name, []))"
      using splitext_shape [OF p replace_amp_slash_end [OF a(2)] a(3) r'] by blast
    then show ?thesis using dots by simp
  qed
qed

lemma title_of_no_dot:
  assumes "snd (splitext name) = []"
    and "CHR ''.'' \<notin> set (case year_from_file of None \<Rightarrow> [] | Some y \<Rightarrow> y)"
  shows "CHR ''.'' \<notin> set (title_of name year_from_file)"
proof (cases "correct_format (fst (splitext (replace_amp name)))")
  case True
  then have "correct_format (replace_amp name)"
    using splitext_replace_amp [OF assms(1)] by simp
  then have "CHR ''.'' \<notin> set (replace_amp name)" using correct_format_no_special by blast
  then show ?thesis using True by (simp add: title_of_def)
next
  case False
  have "CHR ''.'' \<notin> (case year_from_file of None \<Rightarrow> {} | Some y \<Rightarrow> set y)"
    using assms(2) by (cases year_from_file) auto
  then have "CHR ''.'' \<notin> set (tidy (with_year (cleaned (replace_amp name)) year_from_file))"
    using title_set [of "replace_amp name" year_from_file] by (auto simp: is_separator_def)
  then show ?thesis using False by (simp add: title_of_def)
qed

text \<open>
  C6: the extension is kept. For a file, the final dot-delimited suffix of the name
  \<^verbatim>\<open>format_name\<close> returns is the extension \<^verbatim>\<open>os.path.splitext\<close> split off the input at line
  15, character for character (and nothing when it split nothing off), provided the year
  the caller supplies holds no dot.
\<close>

theorem format_name_extension:
  assumes "CHR ''.'' \<notin> set (case year_from_file of None \<Rightarrow> [] | Some y \<Rightarrow> y)"
  shows "final_suffix (format_name name True year_from_file) = snd (splitext name)"
proof (cases "snd (splitext name) = []")
  case True
  then have "fst (splitext name) = name" using splitext_append [of name] by simp
  then have "format_name name True year_from_file = title_of name year_from_file"
    using True by (simp add: format_name_title)
  then show ?thesis using True title_of_no_dot [OF True assms] by (simp add: final_suffix_nodot)
next
  case False
  then obtain a r where "splitext name = (a, CHR ''.'' # r)" "CHR ''.'' \<notin> set r"
    using splitext_ext [of name] by auto
  then show ?thesis by (simp add: format_name_title final_suffix_last)
qed

theorem format_name_extension_witness:
  "CHR ''.'' \<notin> set (case None of None \<Rightarrow> [] | Some y \<Rightarrow> y) \<and>
   format_name ''Movie.Title.2019.MKV'' True None = ''Movie Title (2019).MKV'' \<and>
   final_suffix ''Movie Title (2019).MKV'' = ''.MKV'' \<and>
   snd (splitext ''Movie.Title.2019.MKV'') = ''.MKV''"
proof -
  have w_sp: "splitext ''Movie.Title.2019.MKV'' = (''Movie.Title.2019'', ''.MKV'')"
    by (simp add: splitext_def rfind_def)
  have w_am: "replace_amp ''Movie.Title.2019'' = ''Movie.Title.2019''"
    by (simp add: replace_amp_def)
  have w_sp2: "splitext ''Movie.Title.2019'' = (''Movie.Title'', ''.2019'')"
    by (simp add: splitext_def rfind_def)
  have w_nc: "\<not> correct_format ''Movie.Title''"
    by (simp add: correct_format_def title_year_def year_suffix_def char_eval)
  have w_s1: "sub_runs is_separator False ''Movie.Title.2019'' = ''Movie Title 2019''"
    by (simp add: is_separator_def)
  have w_s2: "remove_patterns ''Movie Title 2019'' = ''Movie Title 2019''"
    by (simp add: remove_patterns_def patterns_to_remove_def lit_def match_len_def char_eval)
  have w_s3: "search_year ''Movie Title 2019'' = Some (''Movie Title '', ''2019'', '''')"
    by (simp add: four_digits_def char_eval)
  have w_s4: "sub_year_cut ''Movie Title 2019'' = ''Movie Title ''"
    by (simp add: sub_year_cut_def cut_line_def four_digits_def char_eval)
  have w_s5: "with_year ''Movie Title 2019'' None = ''Movie Title (2019)''"
    unfolding with_year_def w_s3 w_s4 by (simp add: strip_def char_eval)
  have w_s6: "tidy ''Movie Title (2019)'' = ''Movie Title (2019)''"
    by (simp add: tidy_def sub_trailing_def strip_def char_eval)
  have w_ti: "title_of ''Movie.Title.2019'' None = ''Movie Title (2019)''"
    unfolding title_of_def cleaned_def Let_def w_am w_sp2 fst_conv w_s1 w_s2 w_s5 w_s6 using w_nc by simp
  have w_fn: "format_name ''Movie.Title.2019.MKV'' True None = ''Movie Title (2019).MKV''"
    unfolding format_name_title w_sp fst_conv snd_conv w_ti by simp
  have h: "CHR ''.'' \<notin> set (case None :: string option of None \<Rightarrow> [] | Some y \<Rightarrow> y)" by simp
  show ?thesis
    using format_name_extension [OF h, of "''Movie.Title.2019.MKV''"]
    by (simp add: w_fn w_sp)
qed

section \<open>The year\<close>

lemma strip_ends:
  assumes "strip u \<noteq> []"
  shows "\<not> is_space (hd (strip u)) \<and> \<not> is_space (last (strip u))"
proof -
  define v where "v = dropWhile is_space u"
  define t where "t = dropWhile is_space (rev v)"
  have s: "strip u = rev t" by (simp add: strip_def v_def t_def)
  then have t: "t \<noteq> []" using assms by simp
  then have l: "\<not> is_space (hd t)" unfolding t_def by (rule hd_dropWhile)
  have "rev v = takeWhile is_space (rev v) @ t" by (simp add: t_def)
  then have "v = rev t @ rev (takeWhile is_space (rev v))"
    by (metis rev_append rev_rev_ident)
  then have "hd v = hd (rev t)" "v \<noteq> []" using t by (metis hd_append2 rev_is_Nil_conv, auto)
  moreover have "\<not> is_space (hd v)" using \<open>v \<noteq> []\<close> unfolding v_def by (rule hd_dropWhile)
  ultimately have "\<not> is_space (hd (rev t))" by simp
  moreover have "last (rev t) = hd t" using t by (simp add: last_rev)
  ultimately show ?thesis using s l by simp
qed

lemma dropWhile_hd: "z \<noteq> [] \<Longrightarrow> \<not> P (hd z) \<Longrightarrow> dropWhile P z = z"
  by (cases z) auto

lemma strip_id:
  assumes "s \<noteq> []" "\<not> is_space (hd s)" "\<not> is_space (last s)"
  shows "strip s = s"
proof -
  have a: "dropWhile is_space s = s" using assms(1,2) by (rule dropWhile_hd)
  have "rev s \<noteq> []" "hd (rev s) = last s" using assms(1) by (simp_all add: hd_rev)
  then have "dropWhile is_space (rev s) = rev s"
    using assms(3) dropWhile_hd [of "rev s" is_space] by simp
  then show ?thesis using a by (simp add: strip_def)
qed

lemma strip_strip: "strip (strip u) = strip u"
proof (cases "strip u = []")
  case True
  moreover have "strip [] = []" by (simp add: strip_def)
  ultimately show ?thesis by simp
next
  case False
  then show ?thesis using strip_ends strip_id by blast
qed

lemma sub_runs_append:
  "xs \<noteq> [] \<Longrightarrow> \<not> P (last xs) \<Longrightarrow> sub_runs P b (xs @ ys) = sub_runs P b xs @ sub_runs P False ys"
proof (induction xs arbitrary: b)
  case Nil
  then show ?case by simp
next
  case (Cons x xs)
  show ?case
  proof (cases "xs = []")
    case True
    then show ?thesis using Cons.prems by simp
  next
    case False
    then show ?thesis using Cons by simp
  qed
qed

lemma sub_runs_none: "\<forall>c \<in> set ys. \<not> P c \<Longrightarrow> sub_runs P b ys = ys"
  by (induction ys arbitrary: b) auto

lemma sub_runs_ends:
  "xs \<noteq> [] \<Longrightarrow> \<not> P (hd xs) \<Longrightarrow> sub_runs P b xs \<noteq> [] \<and> hd (sub_runs P b xs) = hd xs"
  by (cases xs) auto

lemma digits_no_space: "list_all is_digit y \<Longrightarrow> \<forall>c \<in> set (y @ '')''). \<not> is_space c"
  using digit_not_special by (auto simp: list_all_iff is_space_Char)

lemma tidy_year:
  assumes "list_all is_digit y"
  shows "tidy (strip u @ '' ('' @ y @ '')'')
    = (if strip u = [] then [] else sub_runs is_space False (strip u) @ '' '') @ ''('' @ y @ '')''"
proof -
  define t where "t = strip u"
  define x where "x = t @ '' ('' @ y @ '')''"
  have ns: "\<forall>c \<in> set (y @ '')''). \<not> is_space c" using assms by (rule digits_no_space)
  have tr: "sub_trailing x = x" by (simp add: sub_trailing_def x_def is_space_Char)
  have par: "strip (''('' @ y @ '')'') = ''('' @ y @ '')''"
    by (rule strip_id) (simp_all add: is_space_Char)
  show ?thesis
  proof (cases "t = []")
    case True
    then have "strip x = ''('' @ y @ '')''"
      using par by (simp add: x_def strip_def is_space_Char)
    moreover have "sub_runs is_space False (''('' @ y @ '')'') = ''('' @ y @ '')''"
      using ns by (simp add: sub_runs_none is_space_Char)
    ultimately have "tidy x = ''('' @ y @ '')''" using tr par by (simp add: tidy_def)
    then show ?thesis using True by (simp add: x_def t_def)
  next
    case False
    then have e: "\<not> is_space (hd t)" "\<not> is_space (last t)"
      using strip_ends [of u] by (simp_all add: t_def)
    have "hd x = hd t" "last x = CHR '')''" "x \<noteq> []" using False by (simp_all add: x_def)
    then have sx: "strip x = x" using e(1) by (simp add: strip_id is_space_Char)
    have "sub_runs is_space False (y @ '')'') = y @ '')''" using ns by (rule sub_runs_none)
    then have "sub_runs is_space False ('' ('' @ y @ '')'') = '' ('' @ y @ '')''"
      by (simp add: is_space_Char)
    then have sr: "sub_runs is_space False x = sub_runs is_space False t @ '' ('' @ y @ '')''"
      using False e(2) sub_runs_append [of t is_space False "'' ('' @ y @ '')''"] by (simp add: x_def)
    have "sub_runs is_space False t \<noteq> []" "hd (sub_runs is_space False t) = hd t"
      using False e(1) sub_runs_ends [of t is_space False] by simp_all
    then have "strip (sub_runs is_space False t @ '' ('' @ y @ '')'')
        = sub_runs is_space False t @ '' ('' @ y @ '')''"
      using e(1) by (intro strip_id) (simp_all add: is_space_Char)
    then have "tidy x = sub_runs is_space False t @ '' ('' @ y @ '')''"
      using tr sx sr by (simp add: tidy_def)
    then show ?thesis using False by (simp add: x_def t_def)
  qed
qed

lemma search_year_None: "search_year s = None \<Longrightarrow> greedy_group s = None"
  by (induction s) (auto split: if_splits option.splits)

lemma greedy_first:
  "search_year s = Some (pre, y, post) \<Longrightarrow> search_year (tl (y @ post)) = None
    \<Longrightarrow> greedy_group s = Some pre"
proof (induction s arbitrary: pre)
  case Nil
  then show ?case by simp
next
  case (Cons c cs)
  show ?case
  proof (cases "four_digits (c # cs)")
    case True
    then have "pre = []" "y @ post = c # cs" using Cons.prems(1) by auto
    then have "greedy_group cs = None" using Cons.prems(2) search_year_None by simp
    then show ?thesis using True \<open>pre = []\<close> by simp
  next
    case False
    then obtain pre' where p: "search_year cs = Some (pre', y, post)" "pre = c # pre'"
      using Cons.prems(1) by (auto split: option.splits)
    then have "greedy_group cs = Some pre'" using Cons.IH Cons.prems(2) by blast
    then show ?thesis using p(2) by simp
  qed
qed

lemma cut_lines_single: "CHR 0x0A \<notin> set s \<Longrightarrow> cut_lines l s = cut_line (l @ s)"
  by (induction s arbitrary: l) auto

lemma sub_year_cut_first:
  assumes "search_year s = Some (pre, y, post)" "search_year (tl (y @ post)) = None"
    and "CHR 0x0A \<notin> set s"
  shows "sub_year_cut s = pre"
  using greedy_first [OF assms(1,2)] assms(3)
  by (simp add: sub_year_cut_def cut_lines_single cut_line_def)

lemma with_year_found:
  assumes "search_year c = Some (pre, y, post)"
  shows "with_year c year_from_file = strip (sub_year_cut c) @ '' ('' @ y @ '')''"
proof -
  have "y \<noteq> []" using search_year_Some [OF assms] by auto
  then show ?thesis using assms by (simp add: with_year_def strip_strip)
qed

text \<open>
  C1, as amended: when the name does not take the short-circuit and the cleaned stem
  has four digits in a row, the year is the first four such digits (also the first four
  of a longer run of digits), and the result ends with the year in parentheses and the
  extension. When moreover the cleaned stem is one line and four digits in a row start
  nowhere else in it, the title is the text before them, trimmed and with its
  whitespace collapsed. Where four digits in a row start at several places, nothing is
  said here of where the title ends.
\<close>

theorem format_name_year:
  assumes "stem = (if is_file then fst (splitext name) else name)"
    and "\<not> correct_format (fst (splitext (replace_amp stem)))"
    and "search_year (cleaned (replace_amp stem)) = Some (pre, y, post)"
  shows "(\<exists>title. format_name name is_file year_from_file
            = title @ ''('' @ y @ '')'' @ (if is_file then snd (splitext name) else []))
    \<and> (search_year (tl (y @ post)) = None \<and> CHR 0x0A \<notin> set (pre @ post) \<longrightarrow>
         format_name name is_file year_from_file
           = (if strip pre = [] then [] else sub_runs is_space False (strip pre) @ '' '')
             @ ''('' @ y @ '')'' @ (if is_file then snd (splitext name) else []))"
proof -
  define c where "c = cleaned (replace_amp stem)"
  define ext where "ext = (if is_file then snd (splitext name) else [])"
  have sy: "search_year c = Some (pre, y, post)" using assms(3) by (simp add: c_def)
  have dy: "c = pre @ y @ post" "list_all is_digit y" using search_year_Some [OF sy] by simp_all
  have "title_of stem year_from_file = tidy (strip (sub_year_cut c) @ '' ('' @ y @ '')'')"
    using assms(2) with_year_found [OF sy] by (simp add: title_of_def c_def)
  then have t: "title_of stem year_from_file
      = (if strip (sub_year_cut c) = [] then [] else sub_runs is_space False (strip (sub_year_cut c)) @ '' '')
        @ ''('' @ y @ '')''"
    using tidy_year [OF dy(2)] by simp
  have f: "format_name name is_file year_from_file = title_of stem year_from_file @ ext"
    using assms(1) by (simp add: format_name_title ext_def)
  have one: "\<exists>title. format_name name is_file year_from_file = title @ ''('' @ y @ '')'' @ ext"
    using f t by simp
  have two: "format_name name is_file year_from_file
      = (if strip pre = [] then [] else sub_runs is_space False (strip pre) @ '' '') @ ''('' @ y @ '')'' @ ext"
    if u: "search_year (tl (y @ post)) = None" and n: "CHR 0x0A \<notin> set (pre @ post)"
  proof -
    have "\<not> is_digit (CHR 0x0A)" by (simp add: is_digit_Char)
    then have "CHR 0x0A \<notin> set y" using dy(2) by (auto simp: list_all_iff)
    then have "CHR 0x0A \<notin> set c" using n dy(1) by simp
    then have "sub_year_cut c = pre" using sub_year_cut_first [OF sy u] by simp
    then show ?thesis using f t by simp
  qed
  show ?thesis using one two unfolding ext_def by blast
qed

theorem format_name_year_witness:
  "''Movie.Title.2019.720p'' = (if True then fst (splitext ''Movie.Title.2019.720p.mkv'') else ''Movie.Title.2019.720p.mkv'')
   \<and> \<not> correct_format (fst (splitext (replace_amp ''Movie.Title.2019.720p'')))
   \<and> search_year (cleaned (replace_amp ''Movie.Title.2019.720p'')) = Some (''Movie Title '', ''2019'', '' 720p'')
   \<and> search_year (tl (''2019'' @ '' 720p'')) = None
   \<and> CHR 0x0A \<notin> set (''Movie Title '' @ '' 720p'')
   \<and> format_name ''Movie.Title.2019.720p.mkv'' True None = ''Movie Title (2019).mkv''"
proof -
  have w_sp: "splitext ''Movie.Title.2019.720p.mkv'' = (''Movie.Title.2019.720p'', ''.mkv'')"
    by (simp add: splitext_def rfind_def)
  have w_am: "replace_amp ''Movie.Title.2019.720p'' = ''Movie.Title.2019.720p''"
    by (simp add: replace_amp_def)
  have w_sp2: "splitext ''Movie.Title.2019.720p'' = (''Movie.Title.2019'', ''.720p'')"
    by (simp add: splitext_def rfind_def)
  have w_nc: "\<not> correct_format ''Movie.Title.2019''"
    by (simp add: correct_format_def title_year_def year_suffix_def char_eval)
  have w_s1: "sub_runs is_separator False ''Movie.Title.2019.720p'' = ''Movie Title 2019 720p''"
    by (simp add: is_separator_def)
  have w_s2: "remove_patterns ''Movie Title 2019 720p'' = ''Movie Title 2019 720p''"
    by (simp add: remove_patterns_def patterns_to_remove_def lit_def match_len_def char_eval)
  have w_s3: "search_year ''Movie Title 2019 720p'' = Some (''Movie Title '', ''2019'', '' 720p'')"
    by (simp add: four_digits_def char_eval)
  have w_s4: "sub_year_cut ''Movie Title 2019 720p'' = ''Movie Title ''"
    by (simp add: sub_year_cut_def cut_line_def four_digits_def char_eval)
  have w_s5: "with_year ''Movie Title 2019 720p'' None = ''Movie Title (2019)''"
    unfolding with_year_def w_s3 w_s4 by (simp add: strip_def char_eval)
  have w_s6: "tidy ''Movie Title (2019)'' = ''Movie Title (2019)''"
    by (simp add: tidy_def sub_trailing_def strip_def char_eval)
  have w_ti: "title_of ''Movie.Title.2019.720p'' None = ''Movie Title (2019)''"
    unfolding title_of_def cleaned_def Let_def w_am w_sp2 fst_conv w_s1 w_s2 w_s5 w_s6 using w_nc by simp
  have w_fn: "format_name ''Movie.Title.2019.720p.mkv'' True None = ''Movie Title (2019).mkv''"
    unfolding format_name_title w_sp fst_conv snd_conv w_ti by simp
  have h1: "''Movie.Title.2019.720p'' = (if True then fst (splitext ''Movie.Title.2019.720p.mkv'') else ''Movie.Title.2019.720p.mkv'')"
    by (simp add: w_sp)
  have h2: "\<not> correct_format (fst (splitext (replace_amp ''Movie.Title.2019.720p'')))"
    using w_nc by (simp add: w_am w_sp2)
  have h3: "search_year (cleaned (replace_amp ''Movie.Title.2019.720p'')) = Some (''Movie Title '', ''2019'', '' 720p'')"
    unfolding w_am cleaned_def w_s1 w_s2 by (rule w_s3)
  have h4: "search_year (tl (''2019'' @ '' 720p'')) = None"
    by (simp add: four_digits_def char_eval)
  have h5: "CHR 0x0A \<notin> set (''Movie Title '' @ '' 720p'')" by simp
  have st: "strip ''Movie Title '' = ''Movie Title''" by (simp add: strip_def char_eval)
  have sr: "sub_runs is_space False ''Movie Title'' = ''Movie Title''" by (simp add: char_eval)
  have "format_name ''Movie.Title.2019.720p.mkv'' True None
      = (if strip ''Movie Title '' = [] then [] else sub_runs is_space False (strip ''Movie Title '') @ '' '')
        @ ''('' @ ''2019'' @ '')'' @ (if True then snd (splitext ''Movie.Title.2019.720p.mkv'') else [])"
    using format_name_year [OF h1 h2 h3, of None] h4 h5 by blast
  then have fn: "format_name ''Movie.Title.2019.720p.mkv'' True None = ''Movie Title (2019).mkv''"
    unfolding st sr w_sp by simp
  show ?thesis using h1 h2 h3 h4 h5 fn by blast
qed

text \<open>
  C1 as it is worded fails. In the directory name \<^verbatim>\<open>IMAX.12345.2019\<close> the first run of
  exactly four digits is \<^verbatim>\<open>2019\<close>, and the claim promises \<^verbatim>\<open>IMAX 12345 (2019)\<close>; the year
  \<^verbatim>\<open>format_name\<close> takes is \<^verbatim>\<open>1234\<close>, the first four digits of the longer run.
\<close>

theorem format_name_year_counterexample:
  "first_run_of_four False (cleaned (replace_amp ''IMAX.12345.2019'')) = Some (''IMAX 12345 '', ''2019'')
   \<and> title_and_year ''IMAX 12345 '' ''2019'' = ''IMAX 12345 (2019)''
   \<and> format_name ''IMAX.12345.2019'' False None = ''IMAX 12345 (1234)''"
proof -
  have c_am: "replace_amp ''IMAX.12345.2019'' = ''IMAX.12345.2019''"
    by (simp add: replace_amp_def)
  have c_sp2: "splitext ''IMAX.12345.2019'' = (''IMAX.12345'', ''.2019'')"
    by (simp add: splitext_def rfind_def)
  have c_nc: "\<not> correct_format ''IMAX.12345''"
    by (simp add: correct_format_def title_year_def year_suffix_def char_eval)
  have c_s1: "sub_runs is_separator False ''IMAX.12345.2019'' = ''IMAX 12345 2019''"
    by (simp add: is_separator_def)
  have c_s2: "remove_patterns ''IMAX 12345 2019'' = ''IMAX 12345 2019''"
    by (simp add: remove_patterns_def patterns_to_remove_def lit_def match_len_def char_eval)
  have c_s3: "search_year ''IMAX 12345 2019'' = Some (''IMAX '', ''1234'', ''5 2019'')"
    by (simp add: four_digits_def char_eval)
  have c_s4: "sub_year_cut ''IMAX 12345 2019'' = ''IMAX 12345 ''"
    by (simp add: sub_year_cut_def cut_line_def four_digits_def char_eval)
  have c_s5: "with_year ''IMAX 12345 2019'' None = ''IMAX 12345 (1234)''"
    unfolding with_year_def c_s3 c_s4 by (simp add: strip_def char_eval)
  have c_s6: "tidy ''IMAX 12345 (1234)'' = ''IMAX 12345 (1234)''"
    by (simp add: tidy_def sub_trailing_def strip_def char_eval)
  have c_ti: "title_of ''IMAX.12345.2019'' None = ''IMAX 12345 (1234)''"
    unfolding title_of_def cleaned_def Let_def c_am c_sp2 fst_conv c_s1 c_s2 c_s5 c_s6 using c_nc by simp
  have c_fn: "format_name ''IMAX.12345.2019'' False None = ''IMAX 12345 (1234)''"
    unfolding format_name_title c_ti by simp
  have r: "first_run_of_four False ''IMAX 12345 2019'' = Some (''IMAX 12345 '', ''2019'')"
    by (simp add: four_digits_def char_eval)
  have t: "title_and_year ''IMAX 12345 '' ''2019'' = ''IMAX 12345 (2019)''"
    by (simp add: title_and_year_def strip_def char_eval)
  show ?thesis unfolding c_am cleaned_def c_s1 c_s2 c_fn using r t by simp
qed

section \<open>Traces\<close>

lemma rename_calls_append: "rename_calls (a @ b) = rename_calls a @ rename_calls b"
  by (induction a rule: rename_calls.induct) auto

lemma new_events_append: "trace (world_of r) = trace w @ evs \<Longrightarrow> new_events w r = evs"
  by (simp add: new_events_def)

text \<open>A loop keeps every relation between worlds that its body keeps, when the relation
  is reflexive and transitive.\<close>

lemma for_each_rel:
  assumes "\<And>x v. x \<in> set xs \<Longrightarrow> R v (world_of (body x v))"
    and "\<And>v. R v v" and "\<And>a b c. R a b \<Longrightarrow> R b c \<Longrightarrow> R a c"
  shows "R w (world_of (for_each body xs w))"
  using assms(1)
proof (induction xs arbitrary: w)
  case Nil
  then show ?case using assms(2) by (simp add: world_of_def)
next
  case (Cons x xs)
  have step: "R w (world_of (body x w))" using Cons.prems by simp
  show ?case
  proof (cases "body x w")
    case (Inl err)
    then show ?thesis using step by (simp add: world_of_def)
  next
    case (Inr w')
    then have "R w w'" using step by (simp add: world_of_def)
    moreover have "R w' (world_of (for_each body xs w'))" using Cons by simp
    ultimately show ?thesis using Inr assms(3) by auto
  qed
qed


section \<open>What \<^verbatim>\<open>rename_entity\<close> does\<close>

text \<open>The four tests of lines 53 to 70, and what \<^verbatim>\<open>rename_entity\<close> does when one of them
  applies and when none does.\<close>

lemma rename_entity_skip:
  assumes "startswith entity ''.'' \<or> basename root_path \<in> set ignored_dirs
    \<or> lower (snd (splitext entity)) \<in> set ignore_extensions \<or> startswith entity ''._''"
  shows "\<exists>fmt arg. \<forall>dry_run.
    rename_entity os root_path entity dry_run ignored_dirs is_file w = Inr (logging_info fmt [arg] w)"
  using assms unfolding rename_entity_def Let_def by auto

lemma rename_entity_run:
  assumes "\<not> (startswith entity ''.'' \<or> basename root_path \<in> set ignored_dirs
    \<or> lower (snd (splitext entity)) \<in> set ignore_extensions \<or> startswith entity ''._'')"
    and "orig = path_join root_path entity"
    and "listing = (if \<not> is_file
       then (case os_listdir os (filesystem w) orig of Inl msg \<Rightarrow> Inl msg
             | Inr names \<Rightarrow> Inr (find_year names))
       else Inr None)"
  shows "rename_entity os root_path entity dry_run ignored_dirs is_file w =
    (case listing of
      Inl msg \<Rightarrow> Inl (OSError msg, w)
    | Inr year_from_file \<Rightarrow>
        if orig \<noteq> path_join root_path (format_name entity is_file year_from_file) then
          if dry_run then Inr (logging_info dry_run_fmt
              [orig, path_join root_path (format_name entity is_file year_from_file)] w)
          else (case os_rename os (filesystem w) orig
                       (path_join root_path (format_name entity is_file year_from_file)) of
                  Inr fs' \<Rightarrow> Inr (logging_info renamed_fmt
                      [orig, path_join root_path (format_name entity is_file year_from_file)]
                      (emit (RenameCall orig (path_join root_path (format_name entity is_file year_from_file)))
                         w\<lparr>filesystem := fs'\<rparr>))
                | Inl msg \<Rightarrow> Inr (logging_error error_fmt
                      [orig, path_join root_path (format_name entity is_file year_from_file), msg]
                      (emit (RenameCall orig (path_join root_path (format_name entity is_file year_from_file))) w)))
        else Inr (logging_info no_rename_fmt [orig] w))"
  using assms(1) unfolding rename_entity_def Let_def assms(2,3) by simp

lemma new_events_info: "new_events w (Inr (logging_info fmt args w)) = [Log INFO fmt args]"
  by (simp add: new_events_def world_of_def logging_info_def emit_def)

lemma new_events_raised: "new_events w (Inl (err, w)) = []"
  by (simp add: new_events_def world_of_def)

lemma new_events_renamed:
  "new_events w (Inr (logging_info fmt args (emit e w\<lparr>filesystem := fs'\<rparr>))) = [e, Log INFO fmt args]"
  by (simp add: new_events_def world_of_def logging_info_def emit_def)

lemma new_events_failed:
  "new_events w (Inr (logging_error fmt args (emit e w))) = [e, Log ERROR fmt args]"
  by (simp add: new_events_def world_of_def logging_error_def emit_def)

lemmas new_events_simps = new_events_info new_events_raised new_events_renamed new_events_failed

lemma trace_new_events:
  "r = Inr (logging_info fmt args w) \<or> r = Inl (err, w)
     \<or> r = Inr (logging_info fmt args (emit e w\<lparr>filesystem := fs'\<rparr>))
     \<or> r = Inr (logging_error fmt args (emit e w))
   \<Longrightarrow> trace (world_of r) = trace w @ new_events w r"
  by (auto simp: new_events_def world_of_def logging_info_def logging_error_def emit_def)


text \<open>A call is quiet (one record of level INFO with one argument, in either mode), or
  raises the error of \<^verbatim>\<open>os.listdir\<close>, or has a rename to do: then the dry run announces
  it, and the live run calls \<^verbatim>\<open>os.rename\<close> for it and logs the outcome.\<close>

lemma rename_entity_core:
  fixes os :: "'fs os" and w :: "'fs world"
  obtains (quiet) fmt arg where
      "\<forall>dry_run. rename_entity os root_path entity dry_run ignored_dirs is_file w
          = Inr (logging_info fmt [arg] w)"
  | (raised) msg where
      "\<forall>dry_run. rename_entity os root_path entity dry_run ignored_dirs is_file w
          = Inl (OSError msg, w)"
  | (rename) orig new where
      "rename_entity os root_path entity True ignored_dirs is_file w
          = Inr (logging_info dry_run_fmt [orig, new] w)"
      "(\<exists>fs'. rename_entity os root_path entity False ignored_dirs is_file w
          = Inr (logging_info renamed_fmt [orig, new] (emit (RenameCall orig new) w\<lparr>filesystem := fs'\<rparr>)))
       \<or> (\<exists>msg. rename_entity os root_path entity False ignored_dirs is_file w
          = Inr (logging_error error_fmt [orig, new, msg] (emit (RenameCall orig new) w)))"
proof (cases "startswith entity ''.'' \<or> basename root_path \<in> set ignored_dirs
    \<or> lower (snd (splitext entity)) \<in> set ignore_extensions \<or> startswith entity ''._''")
  case True
  then show ?thesis using rename_entity_skip [OF True] quiet by blast
next
  case False
  define orig where "orig = path_join root_path entity"
  define listing where "listing = (if \<not> is_file
       then (case os_listdir os (filesystem w) orig of Inl msg \<Rightarrow> Inl msg
             | Inr names \<Rightarrow> Inr (find_year names))
       else Inr None)"
  note run = rename_entity_run [OF False orig_def listing_def]
  show ?thesis
  proof (cases listing)
    case (Inl msg)
    then have "\<forall>dry_run. rename_entity os root_path entity dry_run ignored_dirs is_file w
          = Inl (OSError msg, w)"
      using run by simp
    then show ?thesis using raised by blast
  next
    case (Inr y)
    define new where "new = path_join root_path (format_name entity is_file y)"
    show ?thesis
    proof (cases "orig = new")
      case True
      then have "\<forall>dry_run. rename_entity os root_path entity dry_run ignored_dirs is_file w
          = Inr (logging_info no_rename_fmt [orig] w)"
        using run Inr by (simp add: new_def)
      then show ?thesis using quiet by blast
    next
      case False
      have d: "rename_entity os root_path entity True ignored_dirs is_file w
          = Inr (logging_info dry_run_fmt [orig, new] w)"
        using run [of True] Inr False by (simp add: new_def)
      have l: "(\<exists>fs'. rename_entity os root_path entity False ignored_dirs is_file w
          = Inr (logging_info renamed_fmt [orig, new] (emit (RenameCall orig new) w\<lparr>filesystem := fs'\<rparr>)))
       \<or> (\<exists>msg. rename_entity os root_path entity False ignored_dirs is_file w
          = Inr (logging_error error_fmt [orig, new, msg] (emit (RenameCall orig new) w)))"
      proof (cases "os_rename os (filesystem w) orig new")
        case (Inl msg)
        then have "rename_entity os root_path entity False ignored_dirs is_file w
          = Inr (logging_error error_fmt [orig, new, msg] (emit (RenameCall orig new) w))"
          using run [of False] Inr False by (simp add: new_def)
        then show ?thesis by blast
      next
        case (Inr fs')
        then have "rename_entity os root_path entity False ignored_dirs is_file w
          = Inr (logging_info renamed_fmt [orig, new] (emit (RenameCall orig new) w\<lparr>filesystem := fs'\<rparr>))"
          using run [of False] \<open>listing = Inr y\<close> False by (simp add: new_def)
        then show ?thesis by blast
      qed
      show ?thesis using rename [OF d l] .
    qed
  qed
qed

lemma rename_entity_events:
  "\<exists>evs. trace (world_of (rename_entity os root_path entity dry_run ignored_dirs is_file w))
      = trace w @ evs \<and> list_all (\<lambda>e. \<not> is_marker e) evs"
proof (cases rule: rename_entity_core [of os root_path entity ignored_dirs is_file w])
  case (quiet fmt arg)
  then show ?thesis by (simp add: world_of_def logging_info_def emit_def)
next
  case (raised msg)
  then show ?thesis by (simp add: world_of_def)
next
  case (rename orig new)
  show ?thesis
  proof (cases dry_run)
    case True
    then show ?thesis using rename(1) by (simp add: world_of_def logging_info_def emit_def)
  next
    case False
    then show ?thesis using rename(2)
      by (auto simp: world_of_def logging_info_def logging_error_def emit_def)
  qed
qed

lemma rename_entity_dry:
  "filesystem (world_of (rename_entity os root_path entity True ignored_dirs is_file w)) = filesystem w
   \<and> rename_calls (new_events w (rename_entity os root_path entity True ignored_dirs is_file w)) = []"
proof (cases rule: rename_entity_core [of os root_path entity ignored_dirs is_file w])
  case (quiet fmt arg)
  then show ?thesis by (simp add: new_events_simps) (simp add: world_of_def logging_info_def emit_def)
next
  case (raised msg)
  then show ?thesis by (simp add: new_events_simps) (simp add: world_of_def)
next
  case (rename orig new)
  then show ?thesis by (simp add: new_events_simps) (simp add: world_of_def logging_info_def emit_def)
qed

lemma rename_entity_announced:
  "announced (new_events w (rename_entity os root_path entity True ignored_dirs is_file w))
   = rename_calls (new_events w (rename_entity os root_path entity False ignored_dirs is_file w))"
proof (cases rule: rename_entity_core [of os root_path entity ignored_dirs is_file w])
  case (quiet fmt arg)
  then show ?thesis by (simp add: new_events_simps)
next
  case (raised msg)
  then show ?thesis by (simp add: new_events_simps)
next
  case (rename orig new)
  then show ?thesis by (auto simp: new_events_simps)
qed

section \<open>What \<^verbatim>\<open>walk_directory\<close> does\<close>

text \<open>The world a sequence of two steps leaves, the second run only if the first
  returns.\<close>

lemma then_rel:
  assumes "R w (world_of a)" and "\<And>w1. a = Inr w1 \<Longrightarrow> R w1 (world_of (k w1))"
    and "\<And>a b c. R a b \<Longrightarrow> R b c \<Longrightarrow> R a c"
  shows "R w (world_of (case a of Inl err \<Rightarrow> Inl err | Inr w1 \<Rightarrow> k w1))"
proof (cases a)
  case (Inl err)
  then show ?thesis using assms(1) by (simp add: world_of_def)
next
  case (Inr w1)
  then have "R w w1" using assms(1) by (simp add: world_of_def)
  then show ?thesis using Inr assms(2,3) by auto
qed

text \<open>A walk keeps every reflexive and transitive relation between worlds that the marks
  and \<^verbatim>\<open>rename_entity\<close> keep.\<close>

lemma walk_directory_rel:
  fixes os :: "'fs os"
  assumes refl: "\<And>v. R v v" and trans: "\<And>a b c. R a b \<Longrightarrow> R b c \<Longrightarrow> R a c"
    and mark: "\<And>e v. is_marker e \<Longrightarrow> R v (emit e v)"
    and entity: "\<And>root name is_file v.
           R v (world_of (rename_entity os root name dry_run ignored_dirs is_file v))"
  shows "R w (world_of (walk_directory depth os root dry_run ignored_dirs w))"
proof (induction depth arbitrary: root w)
  case 0
  then show ?case using refl by (simp add: world_of_def)
next
  case (Suc depth)
  show ?case
  proof (cases "os_scandir os (filesystem w) root")
    case None
    then show ?thesis using refl by (simp add: world_of_def)
  next
    case (Some listing)
    obtain dirs0 files0 where l: "listing = (dirs0, files0)" by (cases listing)
    define dirs where "dirs = filter (\<lambda>d. \<not> startswith d ''.'' \<and> d \<notin> set ignored_dirs) dirs0"
    define files where "files = filter (\<lambda>f. \<not> startswith f ''.'') files0"
    define visit where "visit = (\<lambda>is_file name v.
      rename_entity os root name dry_run ignored_dirs is_file (emit (Visit root name is_file) v))"
    define descend where "descend = (\<lambda>dirname v.
      if os_islink os (filesystem v) (path_join root dirname) then Inr v
      else walk_directory depth os (path_join root dirname) dry_run ignored_dirs v)"
    have eq: "walk_directory (Suc depth) os root dry_run ignored_dirs w =
      (case for_each (visit True) files (emit (Yield root) w) of
         Inl err \<Rightarrow> Inl err
       | Inr w1 \<Rightarrow> (case for_each (visit False) dirs w1 of
                      Inl err \<Rightarrow> Inl err
                    | Inr w2 \<Rightarrow> for_each descend dirs w2))"
      unfolding dirs_def files_def visit_def descend_def using Some l by (simp add: Let_def)
    have v: "R u (world_of (visit is_file name u))" for is_file name u
      using trans [OF mark [of "Visit root name is_file" u] entity] by (simp add: visit_def)
    have d: "R u (world_of (descend dirname u))" for dirname u
      using Suc refl by (simp add: descend_def world_of_def)
    have a: "R w (world_of (for_each (visit True) files (emit (Yield root) w)))"
      using trans [OF mark [of "Yield root" w] for_each_rel [of files R "visit True", OF v refl trans]]
      by simp
    have b: "R u (world_of (for_each (visit False) dirs u))" for u
      using for_each_rel [of dirs R "visit False", OF v refl trans] by simp
    have c: "R u (world_of (for_each descend dirs u))" for u
      using for_each_rel [of dirs R descend, OF d refl trans] by simp
    have bc: "R u (world_of (case for_each (visit False) dirs u of
        Inl err \<Rightarrow> Inl err | Inr w2 \<Rightarrow> for_each descend dirs w2))" for u
      using then_rel [of R u "for_each (visit False) dirs u" "for_each descend dirs", OF b c trans]
      by simp
    show ?thesis unfolding eq
      using then_rel [of R w "for_each (visit True) files (emit (Yield root) w)"
          "\<lambda>w1. case for_each (visit False) dirs w1 of Inl err \<Rightarrow> Inl err
                | Inr w2 \<Rightarrow> for_each descend dirs w2", OF a bc trans]
      by simp
  qed
qed

section \<open>The dry run\<close>

lemma walk_directory_dry:
  fixes os :: "'fs os" and w :: "'fs world"
  shows "filesystem (world_of (walk_directory depth os root True ignored_dirs w)) = filesystem w
   \<and> rename_calls (new_events w (walk_directory depth os root True ignored_dirs w)) = []"
proof -
  define R where "R = (\<lambda>(a :: 'fs world) (b :: 'fs world).
    filesystem b = filesystem a \<and> (\<exists>evs. trace b = trace a @ evs \<and> rename_calls evs = []))"
  have "R w (world_of (walk_directory depth os root True ignored_dirs w))"
  proof (rule walk_directory_rel)
    show "R v v" for v by (simp add: R_def)
    show "R a c" if ab: "R a b" and bc: "R b c" for a b c
    proof -
      obtain e1 where e1: "trace b = trace a @ e1" "rename_calls e1 = []"
        using ab unfolding R_def by blast
      obtain e2 where e2: "trace c = trace b @ e2" "rename_calls e2 = []"
        using bc unfolding R_def by blast
      have "trace c = trace a @ (e1 @ e2) \<and> rename_calls (e1 @ e2) = []"
        using e1 e2 by (simp add: rename_calls_append)
      moreover have "filesystem c = filesystem a" using ab bc by (simp add: R_def)
      ultimately show ?thesis unfolding R_def by blast
    qed
    show "R v (emit e v)" if "is_marker e" for e v
    proof -
      have "trace (emit e v) = trace v @ [e] \<and> rename_calls [e] = []"
        using that by (cases e) (simp_all add: emit_def)
      then show ?thesis unfolding R_def by (auto simp: emit_def)
    qed
    show "R v (world_of (rename_entity os root name True ignored_dirs is_file v))"
      for root name is_file v
    proof -
      obtain evs where "trace (world_of (rename_entity os root name True ignored_dirs is_file v))
          = trace v @ evs"
        using rename_entity_events by blast
      moreover from this have "new_events v (rename_entity os root name True ignored_dirs is_file v) = evs"
        by (rule new_events_append)
      ultimately show ?thesis using rename_entity_dry [of os root name ignored_dirs is_file v]
        unfolding R_def by auto
    qed
  qed
  then show ?thesis by (auto simp: R_def new_events_def)
qed

text \<open>
  C7, as amended. A dry run changes nothing: one call of \<^verbatim>\<open>rename_entity\<close> with the flag
  set, and a whole walk with it, leave the file system as it was and call \<^verbatim>\<open>os.rename\<close>
  not once. And for one entry, from the same file system, the rename the dry run
  announces in the log is the rename the live run calls \<^verbatim>\<open>os.rename\<close> for (and none when
  the live run attempts none). Whether the live run's rename succeeds, and what a live
  walk does after a rename, is not part of the statement.
\<close>

theorem dry_run_changes_nothing:
  "filesystem (world_of (rename_entity os root_path entity True ignored_dirs is_file w)) = filesystem w
   \<and> rename_calls (new_events w (rename_entity os root_path entity True ignored_dirs is_file w)) = []
   \<and> filesystem (world_of (walk_directory depth os root_path True ignored_dirs w)) = filesystem w
   \<and> rename_calls (new_events w (walk_directory depth os root_path True ignored_dirs w)) = []
   \<and> announced (new_events w (rename_entity os root_path entity True ignored_dirs is_file w))
       = rename_calls (new_events w (rename_entity os root_path entity False ignored_dirs is_file w))"
  using rename_entity_dry [of os root_path entity ignored_dirs is_file w]
    walk_directory_dry [of depth os root_path ignored_dirs w]
    rename_entity_announced [of w os root_path entity ignored_dirs is_file]
  by simp

section \<open>Runs on the small file system\<close>

lemma rename_entity_dry_run:
  assumes "\<not> startswith entity ''.''" "basename root_path \<notin> set ignored_dirs"
    and "lower (snd (splitext entity)) \<notin> set ignore_extensions" "\<not> startswith entity ''._''"
    and "(if \<not> is_file
          then (case os_listdir os (filesystem w) (path_join root_path entity) of Inl msg \<Rightarrow> Inl msg
                | Inr names \<Rightarrow> Inr (find_year names))
          else Inr None) = Inr y"
    and "path_join root_path entity = orig" "path_join root_path (format_name entity is_file y) = new"
    and "orig \<noteq> new"
  shows "rename_entity os root_path entity True ignored_dirs is_file w
    = Inr (logging_info dry_run_fmt [orig, new] w)"
proof -
  have c: "\<not> (startswith entity ''.'' \<or> basename root_path \<in> set ignored_dirs
    \<or> lower (snd (splitext entity)) \<in> set ignore_extensions \<or> startswith entity ''._'')"
    using assms(1-4) by simp
  note run = rename_entity_run [OF c refl assms(5) [symmetric]]
  show ?thesis unfolding run using assms(6,7,8) by simp
qed

lemma rename_entity_live_run:
  assumes "\<not> startswith entity ''.''" "basename root_path \<notin> set ignored_dirs"
    and "lower (snd (splitext entity)) \<notin> set ignore_extensions" "\<not> startswith entity ''._''"
    and "(if \<not> is_file
          then (case os_listdir os (filesystem w) (path_join root_path entity) of Inl msg \<Rightarrow> Inl msg
                | Inr names \<Rightarrow> Inr (find_year names))
          else Inr None) = Inr y"
    and "path_join root_path entity = orig" "path_join root_path (format_name entity is_file y) = new"
    and "orig \<noteq> new"
  shows "rename_entity os root_path entity False ignored_dirs is_file w
    = (case os_rename os (filesystem w) orig new of
         Inr fs' \<Rightarrow> Inr (logging_info renamed_fmt [orig, new] (emit (RenameCall orig new) w\<lparr>filesystem := fs'\<rparr>))
       | Inl msg \<Rightarrow> Inr (logging_error error_fmt [orig, new, msg] (emit (RenameCall orig new) w)))"
proof -
  have c: "\<not> (startswith entity ''.'' \<or> basename root_path \<in> set ignored_dirs
    \<or> lower (snd (splitext entity)) \<in> set ignore_extensions \<or> startswith entity ''._'')"
    using assms(1-4) by simp
  note run = rename_entity_run [OF c refl assms(5) [symmetric]]
  show ?thesis unfolding run using assms(6,7,8) by (simp split: sum.split)
qed

text \<open>The file \<^verbatim>\<open>Movie.2019.mkv\<close> in the directory \<^verbatim>\<open>/m\<close>.\<close>

lemma movie_file_name: "format_name ''Movie.2019.mkv'' True None = ''Movie (2019).mkv''"
proof -
  have f_sp: "splitext ''Movie.2019.mkv'' = (''Movie.2019'', ''.mkv'')"
    by (simp add: splitext_def rfind_def)
  have f_am: "replace_amp ''Movie.2019'' = ''Movie.2019''"
    by (simp add: replace_amp_def)
  have f_sp2: "splitext ''Movie.2019'' = (''Movie'', ''.2019'')"
    by (simp add: splitext_def rfind_def)
  have f_nc: "\<not> correct_format ''Movie''"
    by (simp add: correct_format_def title_year_def year_suffix_def char_eval)
  have f_s1: "sub_runs is_separator False ''Movie.2019'' = ''Movie 2019''"
    by (simp add: is_separator_def)
  have f_s2: "remove_patterns ''Movie 2019'' = ''Movie 2019''"
    by (simp add: remove_patterns_def patterns_to_remove_def lit_def match_len_def char_eval)
  have f_s3: "search_year ''Movie 2019'' = Some (''Movie '', ''2019'', '''')"
    by (simp add: four_digits_def char_eval)
  have f_s4: "sub_year_cut ''Movie 2019'' = ''Movie ''"
    by (simp add: sub_year_cut_def cut_line_def four_digits_def char_eval)
  have f_s5: "with_year ''Movie 2019'' None = ''Movie (2019)''"
    unfolding with_year_def f_s3 f_s4 by (simp add: strip_def char_eval)
  have f_s6: "tidy ''Movie (2019)'' = ''Movie (2019)''"
    by (simp add: tidy_def sub_trailing_def strip_def char_eval)
  have f_ti: "title_of ''Movie.2019'' None = ''Movie (2019)''"
    unfolding title_of_def cleaned_def Let_def f_am f_sp2 fst_conv f_s1 f_s2 f_s5 f_s6 using f_nc by simp
  have f_fn: "format_name ''Movie.2019.mkv'' True None = ''Movie (2019).mkv''"
    unfolding format_name_title f_sp fst_conv snd_conv f_ti by simp
  show ?thesis by (rule f_fn)
qed

lemma movie_file_pre:
  "\<not> startswith ''Movie.2019.mkv'' ''.''" "basename ''/m'' \<notin> set []"
  "lower (snd (splitext ''Movie.2019.mkv'')) \<notin> set ignore_extensions"
  "\<not> startswith ''Movie.2019.mkv'' ''._''"
  "path_join ''/m'' ''Movie.2019.mkv'' = ''/m/Movie.2019.mkv''"
  "path_join ''/m'' ''Movie (2019).mkv'' = ''/m/Movie (2019).mkv''"
proof -
  have sp: "splitext ''Movie.2019.mkv'' = (''Movie.2019'', ''.mkv'')"
    by (simp add: splitext_def rfind_def)
  show "lower (snd (splitext ''Movie.2019.mkv'')) \<notin> set ignore_extensions"
    unfolding sp by (simp add: lower_def char_eval ignore_extensions_def)
qed (simp_all add: startswith_def path_join_def)

lemma movie_file_dry:
  "rename_entity os ''/m'' ''Movie.2019.mkv'' True [] True w
    = Inr (logging_info dry_run_fmt [''/m/Movie.2019.mkv'', ''/m/Movie (2019).mkv''] w)"
  using rename_entity_dry_run [where entity = "''Movie.2019.mkv''" and root_path = "''/m''"
      and ignored_dirs = "[]" and is_file = True and y = None and os = os and w = w
      and orig = "''/m/Movie.2019.mkv''" and new = "''/m/Movie (2019).mkv''"]
    movie_file_pre
  by (simp add: movie_file_name)

lemma movie_file_live:
  "rename_entity os ''/m'' ''Movie.2019.mkv'' False [] True w
    = (case os_rename os (filesystem w) ''/m/Movie.2019.mkv'' ''/m/Movie (2019).mkv'' of
         Inr fs' \<Rightarrow> Inr (logging_info renamed_fmt [''/m/Movie.2019.mkv'', ''/m/Movie (2019).mkv'']
             (emit (RenameCall ''/m/Movie.2019.mkv'' ''/m/Movie (2019).mkv'') w\<lparr>filesystem := fs'\<rparr>))
       | Inl msg \<Rightarrow> Inr (logging_error error_fmt [''/m/Movie.2019.mkv'', ''/m/Movie (2019).mkv'', msg]
             (emit (RenameCall ''/m/Movie.2019.mkv'' ''/m/Movie (2019).mkv'') w)))"
  using rename_entity_live_run [where entity = "''Movie.2019.mkv''" and root_path = "''/m''"
      and ignored_dirs = "[]" and is_file = True and y = None and os = os and w = w
      and orig = "''/m/Movie.2019.mkv''" and new = "''/m/Movie (2019).mkv''"]
    movie_file_pre
  by (simp add: movie_file_name)

theorem dry_run_changes_nothing_witness:
  "filesystem (world_of (rename_entity tree_os ''/m'' ''Movie.2019.mkv'' True [] True (start movie_tree)))
     = movie_tree
   \<and> rename_calls (new_events (start movie_tree)
        (walk_directory (Suc 0) tree_os ''/m'' True [] (start movie_tree))) = []
   \<and> announced (new_events (start movie_tree)
        (rename_entity tree_os ''/m'' ''Movie.2019.mkv'' True [] True (start movie_tree)))
     = [(''/m/Movie.2019.mkv'', ''/m/Movie (2019).mkv'')]
   \<and> rename_calls (new_events (start movie_tree)
        (rename_entity tree_os ''/m'' ''Movie.2019.mkv'' False [] True (start movie_tree)))
     = [(''/m/Movie.2019.mkv'', ''/m/Movie (2019).mkv'')]"
proof -
  have a: "announced (new_events (start movie_tree)
        (rename_entity tree_os ''/m'' ''Movie.2019.mkv'' True [] True (start movie_tree)))
     = [(''/m/Movie.2019.mkv'', ''/m/Movie (2019).mkv'')]"
    unfolding movie_file_dry new_events_info by simp
  show ?thesis
    using a dry_run_changes_nothing [of tree_os "''/m''" "''Movie.2019.mkv''" "[]" True
        "start movie_tree" "Suc 0"]
    by (simp add: start_def)
qed

text \<open>
  C7 as it is worded fails: what a dry run announces is not always what a live run
  applies. On a file system that refuses every rename (mounted read-only), the dry run
  announces the rename of \<^verbatim>\<open>/m/Movie.2019.mkv\<close>; the live run calls \<^verbatim>\<open>os.rename\<close>, logs the
  error and applies nothing.
\<close>

theorem dry_run_counterexample:
  "announced (new_events (start movie_tree)
        (rename_entity readonly_os ''/m'' ''Movie.2019.mkv'' True [] True (start movie_tree)))
     = [(''/m/Movie.2019.mkv'', ''/m/Movie (2019).mkv'')]
   \<and> applied (new_events (start movie_tree)
        (rename_entity readonly_os ''/m'' ''Movie.2019.mkv'' False [] True (start movie_tree)))
     = []
   \<and> filesystem (world_of
        (rename_entity readonly_os ''/m'' ''Movie.2019.mkv'' False [] True (start movie_tree)))
     = movie_tree"
proof -
  have r: "os_rename readonly_os t a b = Inl ''Read-only file system''" for t a b
    by (simp add: readonly_os_def)
  show ?thesis
    unfolding movie_file_dry movie_file_live r sum.case new_events_info new_events_failed
    by (simp add: world_of_def logging_error_def emit_def start_def)
qed

section \<open>The order of the walk\<close>














section \<open>A walk of the small library\<close>










section \<open>Renames on the small file system\<close>

text \<open>A rename to a free name moves the file; a rename onto another file replaces it; a
  rename of a directory onto one that is not empty fails.\<close>

lemma rename_tree_examples:
  "rename_tree movie_tree ''/m/Movie.2019.mkv'' ''/m/Movie (2019).mkv''
     = Inr [(''/m'', True), (''/m/Movie (2019).mkv'', False)]"
  "rename_tree [(''/m'', True), (''/m/a.mkv'', False), (''/m/b.mkv'', False)] ''/m/a.mkv'' ''/m/b.mkv''
     = Inr [(''/m'', True), (''/m/b.mkv'', False)]"
  "rename_tree library ''/m/Movie.2019'' ''/m/extras'' = Inl ''Directory not empty''"
  "rename_tree library ''/m/Movie.2019'' ''/m/Movie (2019)''
     = Inr [(''/m'', True), (''/m/Other (2020).mkv'', False),
            (''/m/Movie (2019)'', True), (''/m/Movie (2019)/Movie.2019.mkv'', False),
            (''/m/.cache'', True), (''/m/.cache/Old.2001.mkv'', False),
            (''/m/extras'', True), (''/m/extras/Clip.1999.mkv'', False)]"
  by (simp_all add: rename_tree_def movie_tree_def library_def move_def parent_exists_def
      rfind_def startswith_def)

end
